theory Spec2Isabelle
  imports Complex_Main "HOL-Library.Word"
begin

section \<open>Pixels and images (main.cpp, lines 11-54)\<close>

text \<open>
  \<^verbatim>\<open>struct Pixel { uint8_t r = 0, g = 0, b = 0; ... }\<close>: three 8-bit channels, compared
  component-wise by \<^verbatim>\<open>operator==\<close>, which is the equality of the record.
\<close>

record Pixel =
  r :: "8 word"
  g :: "8 word"
  b :: "8 word"

definition WHITE :: Pixel where
  "WHITE = \<lparr>r = 255, g = 255, b = 255\<rparr>"

definition BLACK :: Pixel where
  "BLACK = \<lparr>r = 0, g = 0, b = 0\<rparr>"

text \<open>The value-initialised pixel \<^verbatim>\<open>{ }\<close> and \<^verbatim>\<open>Pixel c_original;\<close>: every channel 0.\<close>

definition default_Pixel :: Pixel where
  "default_Pixel = \<lparr>r = 0, g = 0, b = 0\<rparr>"

text \<open>
  \<^verbatim>\<open>struct WebPImage\<close>: the encoded bytes, the decoded pixels, and the two \<^verbatim>\<open>int\<close>
  dimensions. The dimensions are integers; their conversion to \<^verbatim>\<open>size_t\<close> (64 bits,
  modulo \<open>2 ^ 64\<close>) is written out where the accessors compare and multiply.
\<close>

record WebPImage =
  data :: "8 word list"
  pixels :: "Pixel list"
  width :: int
  height :: int

type_synonym size_t = "64 word"

text \<open>
  The program has no error handling of its own. What it can do wrong is undefined
  behaviour of C++, which the model returns as a value: indexing a \<^verbatim>\<open>std::vector\<close>
  outside its size, and converting a floating-point value whose truncation does not fit
  the integer type.
\<close>

datatype undefined_behaviour = OutOfBoundsAccess | UnrepresentableConversion

definition vec_at :: "'a list \<Rightarrow> size_t \<Rightarrow> undefined_behaviour + 'a" where
  "vec_at xs i = (if unat i < length xs then Inr (xs ! unat i) else Inl OutOfBoundsAccess)"

definition vec_set :: "'a list \<Rightarrow> size_t \<Rightarrow> 'a \<Rightarrow> undefined_behaviour + 'a list" where
  "vec_set xs i v = (if unat i < length xs then Inr (xs[unat i := v]) else Inl OutOfBoundsAccess)"

definition get_pixel :: "WebPImage \<Rightarrow> size_t \<Rightarrow> size_t \<Rightarrow> undefined_behaviour + Pixel" where
  "get_pixel img x y =
     (if word_of_int (width img) < x then Inr default_Pixel
      else if word_of_int (height img) < y then Inr default_Pixel
      else vec_at (pixels img) (y * word_of_int (width img) + x))"

definition set_pixel ::
  "WebPImage \<Rightarrow> size_t \<Rightarrow> size_t \<Rightarrow> Pixel \<Rightarrow> undefined_behaviour + WebPImage" where
  "set_pixel img x y p =
     (if word_of_int (width img) < x then Inr img
      else if word_of_int (height img) < y then Inr img
      else case vec_set (pixels img) (y * word_of_int (width img) + x) p of
             Inl e \<Rightarrow> Inl e
           | Inr ps \<Rightarrow> Inr (img\<lparr>pixels := ps\<rparr>))"

text \<open>
  What \<^verbatim>\<open>open_webp\<close> establishes for an image it returns: the pixel vector is resized to
  \<^verbatim>\<open>width * height\<close>, and the dimensions are non-negative \<^verbatim>\<open>int\<close> values.
\<close>

definition decoded :: "WebPImage \<Rightarrow> bool" where
  "decoded img \<longleftrightarrow>
     0 \<le> width img \<and> width img < 2 ^ 31 \<and> 0 \<le> height img \<and> height img < 2 ^ 31 \<and>
     length (pixels img) = nat (width img) * nat (height img)"

section \<open>Single-precision arithmetic\<close>

text \<open>
  \<^verbatim>\<open>float\<close> is IEEE 754 binary32 with the default rounding (to nearest, ties to even), and
  every operation of the source is rounded on its own: no wider intermediate precision and
  no fused multiply-add. A value is a rational number (the positive zero is \<open>Num 0\<close>),
  the negative zero, an infinity or a NaN; the binary32 numbers among the rationals are the
  fixed points of \<open>round32\<close>.
\<close>

datatype f32 = Num rat | MinusZero | PlusInf | MinusInf | NaN

definition zero_of :: "bool \<Rightarrow> f32" where
  "zero_of s = (if s then MinusZero else Num 0)"

definition inf_of :: "bool \<Rightarrow> f32" where
  "inf_of s = (if s then MinusInf else PlusInf)"

fun signbit :: "f32 \<Rightarrow> bool" where
  "signbit (Num q) = (q < 0)"
| "signbit MinusZero = True"
| "signbit PlusInf = False"
| "signbit MinusInf = True"
| "signbit NaN = False"

fun val :: "f32 \<Rightarrow> rat" where
  "val (Num q) = q"
| "val _ = 0"

definition is_zero :: "f32 \<Rightarrow> bool" where
  "is_zero v \<longleftrightarrow> v = Num 0 \<or> v = MinusZero"

definition is_inf :: "f32 \<Rightarrow> bool" where
  "is_inf v \<longleftrightarrow> v = PlusInf \<or> v = MinusInf"

text \<open>
  The binade of a positive rational: the least exponent \<open>e\<close> from \<open>-126\<close> (the exponent of
  the subnormal numbers) with \<open>a < 2 ^ (e + 1)\<close>, and at most \<open>127\<close>.
\<close>

fun exp_search :: "nat \<Rightarrow> int \<Rightarrow> rat \<Rightarrow> int" where
  "exp_search 0 e a = e"
| "exp_search (Suc k) e a = (if a < 2 powi (e + 1) then e else exp_search k (e + 1) a)"

definition round_half_even :: "rat \<Rightarrow> int" where
  "round_half_even q =
     (let n = \<lfloor>q\<rfloor>; d = q - of_int n
      in if d < 1 / 2 then n else if 1 / 2 < d then n + 1 else if even n then n else n + 1)"

text \<open>
  Rounding an exact result to binary32: 24 significant bits, unit in the last place
  \<open>2 ^ (e - 23)\<close>, overflow to an infinity from \<open>2 ^ 128\<close>, underflow to a zero of the
  sign of the exact result.
\<close>

definition round32 :: "rat \<Rightarrow> f32" where
  "round32 q =
     (if q = 0 then Num 0
      else let a = \<bar>q\<bar>;
               e = exp_search 253 (- 126) a;
               u = 2 powi (e - 23);
               m = of_int (round_half_even (a / u)) * u
           in if 2 powi 128 \<le> m then inf_of (q < 0)
              else if m = 0 then zero_of (q < 0)
              else Num (if q < 0 then - m else m))"

fun fneg :: "f32 \<Rightarrow> f32" where
  "fneg (Num q) = (if q = 0 then MinusZero else Num (- q))"
| "fneg MinusZero = Num 0"
| "fneg PlusInf = MinusInf"
| "fneg MinusInf = PlusInf"
| "fneg NaN = NaN"

definition fadd :: "f32 \<Rightarrow> f32 \<Rightarrow> f32" where
  "fadd x y =
     (if x = NaN \<or> y = NaN then NaN
      else if is_inf x then (if is_inf y \<and> x \<noteq> y then NaN else x)
      else if is_inf y then y
      else if is_zero x \<and> is_zero y then zero_of (signbit x \<and> signbit y)
      else if val x + val y = 0 then Num 0
      else round32 (val x + val y))"

definition fsub :: "f32 \<Rightarrow> f32 \<Rightarrow> f32" where
  "fsub x y = fadd x (fneg y)"

definition fmul :: "f32 \<Rightarrow> f32 \<Rightarrow> f32" where
  "fmul x y =
     (if x = NaN \<or> y = NaN then NaN
      else if is_inf x \<or> is_inf y
        then (if is_zero x \<or> is_zero y then NaN else inf_of (signbit x \<noteq> signbit y))
      else if is_zero x \<or> is_zero y then zero_of (signbit x \<noteq> signbit y)
      else round32 (val x * val y))"

definition fdiv :: "f32 \<Rightarrow> f32 \<Rightarrow> f32" where
  "fdiv x y =
     (if x = NaN \<or> y = NaN then NaN
      else if is_inf x then (if is_inf y then NaN else inf_of (signbit x \<noteq> signbit y))
      else if is_inf y then zero_of (signbit x \<noteq> signbit y)
      else if is_zero y then (if is_zero x then NaN else inf_of (signbit x \<noteq> signbit y))
      else if is_zero x then zero_of (signbit x \<noteq> signbit y)
      else round32 (val x / val y))"

text \<open>The comparison \<^verbatim>\<open><\<close>: false whenever an operand is a NaN; the two zeros are equal.\<close>

fun flt :: "f32 \<Rightarrow> f32 \<Rightarrow> bool" where
  "flt NaN _ = False"
| "flt _ NaN = False"
| "flt PlusInf _ = False"
| "flt _ MinusInf = False"
| "flt MinusInf _ = True"
| "flt _ PlusInf = True"
| "flt x y = (val x < val y)"

text \<open>\<^verbatim>\<open>std::clamp(v, lo, hi)\<close> is \<^verbatim>\<open>(v < lo) ? lo : (hi < v) ? hi : v\<close>.\<close>

definition clamp :: "f32 \<Rightarrow> f32 \<Rightarrow> f32 \<Rightarrow> f32" where
  "clamp v lo hi = (if flt v lo then lo else if flt hi v then hi else v)"

text \<open>\<^verbatim>\<open>static_cast<float>\<close> of an 8-bit channel is exact.\<close>

definition float_of_u8 :: "8 word \<Rightarrow> f32" where
  "float_of_u8 c = Num (of_nat (unat c))"

text \<open>
  The implicit conversion of a \<^verbatim>\<open>float\<close> to \<^verbatim>\<open>uint8_t\<close> discards the fractional part;
  it is undefined when the truncated value is not one of \<open>0 .. 255\<close> (which includes the
  infinities and the NaN).
\<close>

definition trunc_to_zero :: "rat \<Rightarrow> int" where
  "trunc_to_zero q = (if 0 \<le> q then \<lfloor>q\<rfloor> else \<lceil>q\<rceil>)"

fun u8_of_float :: "f32 \<Rightarrow> undefined_behaviour + 8 word" where
  "u8_of_float (Num q) =
     (if 0 \<le> trunc_to_zero q \<and> trunc_to_zero q \<le> 255 then Inr (word_of_int (trunc_to_zero q))
      else Inl UnrepresentableConversion)"
| "u8_of_float MinusZero = Inr 0"
| "u8_of_float _ = Inl UnrepresentableConversion"

section \<open>The unblend pass (main.cpp, lines 195-220)\<close>

text \<open>
  The lambda \<^verbatim>\<open>Eq\<close>: its local \<^verbatim>\<open>value\<close> (lines 201-202) and the clamped result
  (line 203). Its third parameter is a \<^verbatim>\<open>uint8_t\<close>; the caller passes an \<^verbatim>\<open>int\<close>,
  which the call narrows modulo 256 (\<open>u8_of_int\<close>).
\<close>

definition Eq_value :: "8 word \<Rightarrow> f32 \<Rightarrow> 8 word \<Rightarrow> f32" where
  "Eq_value c_final alpha c_overlay =
     fdiv (fsub (float_of_u8 c_final)
                (fmul (float_of_u8 c_overlay) (fsub (Num 1) alpha))) alpha"

definition Eq :: "8 word \<Rightarrow> f32 \<Rightarrow> 8 word \<Rightarrow> f32" where
  "Eq c_final alpha c_overlay = clamp (Eq_value c_final alpha c_overlay) (Num 0) (Num 255)"

definition u8_of_int :: "int \<Rightarrow> 8 word" where
  "u8_of_int v = word_of_int v"

text \<open>Lines 214-217: the three channels of \<^verbatim>\<open>c_original\<close>, assigned in the order r, g, b.\<close>

definition restore :: "Pixel \<Rightarrow> f32 \<Rightarrow> int \<Rightarrow> int \<Rightarrow> int \<Rightarrow> undefined_behaviour + Pixel" where
  "restore c_f alpha overlay_r overlay_g overlay_b =
     (case u8_of_float (Eq (r c_f) alpha (u8_of_int overlay_r)) of
        Inl e \<Rightarrow> Inl e
      | Inr cr \<Rightarrow>
     (case u8_of_float (Eq (g c_f) alpha (u8_of_int overlay_g)) of
        Inl e \<Rightarrow> Inl e
      | Inr cg \<Rightarrow>
     (case u8_of_float (Eq (b c_f) alpha (u8_of_int overlay_b)) of
        Inl e \<Rightarrow> Inl e
      | Inr cb \<Rightarrow> Inr \<lparr>r = cr, g = cg, b = cb\<rparr>)))"

text \<open>Lines 210-218: the body of the inner loop at the coordinate \<open>(x, y)\<close>.\<close>

definition body ::
  "WebPImage \<Rightarrow> WebPImage \<Rightarrow> f32 \<Rightarrow> int \<Rightarrow> int \<Rightarrow> int \<Rightarrow> nat \<times> nat \<Rightarrow> WebPImage
     \<Rightarrow> undefined_behaviour + WebPImage" where
  "body img msk alpha overlay_r overlay_g overlay_b c recovered =
     (case get_pixel msk (of_nat (fst c)) (of_nat (snd c)) of
        Inl e \<Rightarrow> Inl e
      | Inr c_mask \<Rightarrow>
          if c_mask = BLACK then Inr recovered
          else (case get_pixel img (of_nat (fst c)) (of_nat (snd c)) of
                  Inl e \<Rightarrow> Inl e
                | Inr c_f \<Rightarrow>
                    (case restore c_f alpha overlay_r overlay_g overlay_b of
                       Inl e \<Rightarrow> Inl e
                     | Inr c_original \<Rightarrow>
                         set_pixel recovered (of_nat (fst c)) (of_nat (snd c)) c_original)))"

text \<open>A step of a loop: nothing runs after undefined behaviour.\<close>

definition step ::
  "WebPImage \<Rightarrow> WebPImage \<Rightarrow> f32 \<Rightarrow> int \<Rightarrow> int \<Rightarrow> int \<Rightarrow> nat \<times> nat
     \<Rightarrow> undefined_behaviour + WebPImage \<Rightarrow> undefined_behaviour + WebPImage" where
  "step img msk alpha overlay_r overlay_g overlay_b c acc =
     (case acc of
        Inl e \<Rightarrow> Inl e
      | Inr recovered \<Rightarrow> body img msk alpha overlay_r overlay_g overlay_b c recovered)"

text \<open>
  Lines 195-220: \<^verbatim>\<open>recovered\<close> starts as a copy of \<^verbatim>\<open>image\<close>; the outer loop counts
  \<open>y\<close> from 0 below \<^verbatim>\<open>image.height\<close>, the inner loop \<open>x\<close> from 0 below \<^verbatim>\<open>image.width\<close>.
\<close>

definition unblend ::
  "WebPImage \<Rightarrow> WebPImage \<Rightarrow> f32 \<Rightarrow> int \<Rightarrow> int \<Rightarrow> int \<Rightarrow> undefined_behaviour + WebPImage" where
  "unblend img msk alpha overlay_r overlay_g overlay_b =
     fold (\<lambda>y. fold (\<lambda>x. step img msk alpha overlay_r overlay_g overlay_b (x, y))
                     [0 ..< nat (width img)])
          [0 ..< nat (height img)] (Inr img)"

section \<open>The pass as a map over the pixels\<close>

text \<open>
  The coordinates in the order of the two loops (row by row), the linear index of a
  coordinate, and what one round of the loop body leaves at a coordinate: the composite's
  pixel under a black mask pixel, the restored pixel otherwise.
\<close>

definition coords :: "WebPImage \<Rightarrow> (nat \<times> nat) list" where
  "coords img =
     concat (map (\<lambda>y. map (\<lambda>x. (x, y)) [0 ..< nat (width img)]) [0 ..< nat (height img)])"

definition idx :: "WebPImage \<Rightarrow> nat \<times> nat \<Rightarrow> nat" where
  "idx img c = snd c * nat (width img) + fst c"

definition in_grid :: "WebPImage \<Rightarrow> nat \<times> nat \<Rightarrow> bool" where
  "in_grid img c \<longleftrightarrow> fst c < nat (width img) \<and> snd c < nat (height img)"

definition same_shape :: "WebPImage \<Rightarrow> WebPImage \<Rightarrow> bool" where
  "same_shape a img \<longleftrightarrow>
     width a = width img \<and> height a = height img \<and> length (pixels a) = length (pixels img)"

definition recovered_pixel ::
  "Pixel \<Rightarrow> Pixel \<Rightarrow> f32 \<Rightarrow> int \<Rightarrow> int \<Rightarrow> int \<Rightarrow> undefined_behaviour + Pixel" where
  "recovered_pixel c_mask c_f alpha overlay_r overlay_g overlay_b =
     (if c_mask = BLACK then Inr c_f else restore c_f alpha overlay_r overlay_g overlay_b)"

text \<open>The pass with the coordinates visited in a given order.\<close>

definition unblend_in_order ::
  "(nat \<times> nat) list \<Rightarrow> WebPImage \<Rightarrow> WebPImage \<Rightarrow> f32 \<Rightarrow> int \<Rightarrow> int \<Rightarrow> int
     \<Rightarrow> undefined_behaviour + WebPImage" where
  "unblend_in_order cs img msk alpha overlay_r overlay_g overlay_b =
     fold (step img msk alpha overlay_r overlay_g overlay_b) cs (Inr img)"

section \<open>Notions of the specification\<close>

text \<open>
  A finite, non-zero \<^verbatim>\<open>float\<close>: the largest finite binary32 number is
  \<open>2 ^ 128 - 2 ^ 104\<close>.
\<close>

definition finite_nonzero :: "f32 \<Rightarrow> bool" where
  "finite_nonzero a =
     (case a of Num q \<Rightarrow> q \<noteq> 0 \<and> \<bar>q\<bar> \<le> 2 ^ 128 - 2 ^ 104 | _ \<Rightarrow> False)"

text \<open>
  The channel the specification asks for, from the unclamped value: 0 below 0, 255 above
  255, and the integer part in between.
\<close>

definition clamped_u8 :: "f32 \<Rightarrow> 8 word" where
  "clamped_u8 v =
     (if flt v (Num 0) then 0 else if flt (Num 255) v then 255 else word_of_int \<lfloor>val v\<rfloor>)"

text \<open>
  Modelled from the spec: the forward blend \<open>composite(O, V, alpha)\<close> of the round-trip
  property (section 8) is not part of the program, which only inverts it. Per channel it is
  \<open>O * alpha + V * (1 - alpha)\<close>, clamped to \<open>[0, 255]\<close> and rounded to 8 bits. The
  specification leaves the rounding open, so it is a parameter: towards zero, to nearest
  with ties to even, or to nearest with ties away from zero. The sum is taken exactly.
\<close>

datatype rounding = Truncate | NearestEven | NearestAway

definition round_with :: "rounding \<Rightarrow> rat \<Rightarrow> int" where
  "round_with m x =
     (case m of Truncate \<Rightarrow> \<lfloor>x\<rfloor> | NearestEven \<Rightarrow> round_half_even x | NearestAway \<Rightarrow> \<lfloor>x + 1 / 2\<rfloor>)"

definition composite_channel :: "rounding \<Rightarrow> 8 word \<Rightarrow> rat \<Rightarrow> 8 word \<Rightarrow> 8 word" where
  "composite_channel m c_original alpha c_overlay =
     word_of_int (round_with m
       (max 0 (min 255 (of_int (uint c_original) * alpha + of_int (uint c_overlay) * (1 - alpha)))))"

definition composite_pixel :: "rounding \<Rightarrow> Pixel \<Rightarrow> rat \<Rightarrow> Pixel \<Rightarrow> Pixel" where
  "composite_pixel m p alpha overlay =
     \<lparr>r = composite_channel m (r p) alpha (r overlay),
      g = composite_channel m (g p) alpha (g overlay),
      b = composite_channel m (b p) alpha (b overlay)\<rparr>"

definition composite :: "rounding \<Rightarrow> WebPImage \<Rightarrow> rat \<Rightarrow> Pixel \<Rightarrow> WebPImage" where
  "composite m original alpha overlay =
     original\<lparr>pixels := map (\<lambda>p. composite_pixel m p alpha overlay) (pixels original)\<rparr>"

text \<open>
  The largest error of each rounding of the forward blend, and the tolerance of the round
  trip that follows from it: the error is divided by \<^verbatim>\<open>alpha\<close>, the single-precision
  operations of the inverse add at most \<open>2 ^ - 12 / alpha\<close>, and the conversion to 8 bits
  truncates.
\<close>

definition rounding_error :: "rounding \<Rightarrow> rat" where
  "rounding_error m = (case m of Truncate \<Rightarrow> 1 | NearestEven \<Rightarrow> 1 / 2 | NearestAway \<Rightarrow> 1 / 2)"

definition tolerance :: "rounding \<Rightarrow> rat \<Rightarrow> int" where
  "tolerance m alpha = \<lceil>(rounding_error m + 1 / 4096) / alpha\<rceil>"

text \<open>
  The largest rounding error on the multiples of \<open>1 / 2 ^ k\<close>, where the exact blend lies
  for \<^verbatim>\<open>alpha\<close> a multiple of \<open>1 / 2 ^ k\<close>.
\<close>

definition grid_error :: "rounding \<Rightarrow> nat \<Rightarrow> rat" where
  "grid_error m k =
     (case m of Truncate \<Rightarrow> 1 - 1 / 2 ^ k
      | NearestEven \<Rightarrow> (if k = 0 then 0 else 1 / 2)
      | NearestAway \<Rightarrow> (if k = 0 then 0 else 1 / 2))"

definition grid_tolerance :: "rounding \<Rightarrow> nat \<Rightarrow> rat \<Rightarrow> int" where
  "grid_tolerance m k alpha = \<lceil>grid_error m k / alpha\<rceil>"

text \<open>A finite value: a number or the negative zero.\<close>

definition is_finite :: "f32 \<Rightarrow> bool" where
  "is_finite v \<longleftrightarrow> v \<noteq> NaN \<and> \<not> is_inf v"

text \<open>Two channels, and two pixels, within a tolerance of each other.\<close>

definition near :: "int \<Rightarrow> 8 word \<Rightarrow> 8 word \<Rightarrow> bool" where
  "near d c c' \<longleftrightarrow> \<bar>uint c - uint c'\<bar> \<le> d"

definition pixel_near :: "int \<Rightarrow> Pixel \<Rightarrow> Pixel \<Rightarrow> bool" where
  "pixel_near d p q \<longleftrightarrow> near d (r p) (r q) \<and> near d (g p) (g q) \<and> near d (b p) (b q)"

section \<open>Example inputs\<close>

text \<open>A 2 x 2 image with four different pixels, in row-major order.\<close>

definition grid :: WebPImage where
  "grid = \<lparr>data = [], pixels = [\<lparr>r = 1, g = 1, b = 1\<rparr>, \<lparr>r = 2, g = 2, b = 2\<rparr>,
                                 \<lparr>r = 3, g = 3, b = 3\<rparr>, \<lparr>r = 4, g = 4, b = 4\<rparr>],
           width = 2, height = 2\<rparr>"

text \<open>
  A 2 x 2 composite and a mask for it: white, almost black, white and black.
\<close>

definition photo :: WebPImage where
  "photo = \<lparr>data = [], pixels = [\<lparr>r = 200, g = 200, b = 200\<rparr>, \<lparr>r = 100, g = 150, b = 250\<rparr>,
                                  \<lparr>r = 10, g = 128, b = 255\<rparr>, \<lparr>r = 7, g = 8, b = 9\<rparr>],
            width = 2, height = 2\<rparr>"

definition stamp :: WebPImage where
  "stamp = \<lparr>data = [], pixels = [WHITE, \<lparr>r = 0, g = 0, b = 1\<rparr>, WHITE, BLACK],
            width = 2, height = 2\<rparr>"

text \<open>A one-pixel original with every channel 2, and its white mask.\<close>

definition dot :: WebPImage where
  "dot = \<lparr>data = [], pixels = [\<lparr>r = 2, g = 2, b = 2\<rparr>], width = 1, height = 1\<rparr>"

definition dot_mask :: WebPImage where
  "dot_mask = \<lparr>data = [], pixels = [WHITE], width = 1, height = 1\<rparr>"

section \<open>The accessors\<close>

text \<open>The conversions of the accessors, for dimensions in the range of \<^verbatim>\<open>int\<close>.\<close>

lemma unat_size_t_of_int:
  assumes "0 \<le> w" "w < 2 ^ 31"
  shows "unat (word_of_int w :: size_t) = nat w"
proof -
  have "uint (word_of_int w :: size_t) = w mod 2 ^ 64"
    by (simp add: uint_word_of_int)
  also have "\<dots> = w" using assms by simp
  finally show ?thesis by (simp add: unat_eq_nat_uint)
qed

lemma size_t_less_iff:
  assumes "0 \<le> w" "w < 2 ^ 31"
  shows "(word_of_int w :: size_t) < x \<longleftrightarrow> nat w < unat x"
  by (simp add: word_less_nat_alt unat_size_t_of_int [OF assms])

lemma unat_index:
  assumes "0 \<le> w" "w < 2 ^ 31" "unat y \<le> nat h" "h < 2 ^ 31" "unat x \<le> nat w"
  shows "unat (y * word_of_int w + x :: size_t) = unat y * nat w + unat x"
proof -
  have w: "nat w < 2 ^ 31" using assms by (simp add: nat_less_iff)
  have y: "unat y < 2 ^ 31" using assms by (simp add: nat_less_iff nat_le_iff)
  have "unat y * nat w \<le> 2 ^ 31 * 2 ^ 31"
    using w y by (intro mult_mono) simp_all
  then have b: "unat y * nat w + unat x < 2 ^ 64"
    using assms(5) w by simp
  then have "unat y * nat w < 2 ^ 64" by simp
  then have "unat (y * word_of_int w :: size_t) = unat y * nat w"
    by (simp add: unat_word_ariths unat_size_t_of_int [OF assms(1,2)])
  then show ?thesis using b by (simp add: unat_word_ariths)
qed





section \<open>The loops\<close>

text \<open>Inside the grid of a decoded image the accessors reach the vector.\<close>

lemma unat_coord:
  assumes "w < 2 ^ 31" "x < nat w"
  shows "unat (of_nat x :: size_t) = x"
proof -
  have "x < 2 ^ 31" using assms by (simp add: nat_less_iff)
  then have "x < 2 ^ 64" by simp
  then show ?thesis by (simp add: unat_of_nat)
qed

lemma idx_less:
  assumes "x < w" "y < (h::nat)"
  shows "y * w + x < w * h"
proof -
  have "y * w + x < y * w + w" using assms by simp
  also have "\<dots> = (Suc y) * w" by simp
  also have "\<dots> \<le> h * w" using assms by (intro mult_le_mono1) simp
  finally show ?thesis by (simp add: mult.commute)
qed

lemma in_grid_facts:
  assumes "decoded img" "in_grid img c"
  shows "\<not> word_of_int (width img) < (of_nat (fst c) :: size_t)"
    and "\<not> word_of_int (height img) < (of_nat (snd c) :: size_t)"
    and "unat (of_nat (snd c) * word_of_int (width img) + of_nat (fst c) :: size_t) = idx img c"
    and "idx img c < length (pixels img)"
proof -
  from assms have d: "0 \<le> width img" "width img < 2 ^ 31" "0 \<le> height img" "height img < 2 ^ 31"
    and len: "length (pixels img) = nat (width img) * nat (height img)"
    and x: "fst c < nat (width img)" and y: "snd c < nat (height img)"
    by (simp_all add: decoded_def in_grid_def)
  have ux: "unat (of_nat (fst c) :: size_t) = fst c" by (rule unat_coord [OF d(2) x])
  have uy: "unat (of_nat (snd c) :: size_t) = snd c" by (rule unat_coord [OF d(4) y])
  show "\<not> word_of_int (width img) < (of_nat (fst c) :: size_t)"
    using x by (simp add: size_t_less_iff [OF d(1,2)] ux)
  show "\<not> word_of_int (height img) < (of_nat (snd c) :: size_t)"
    using y by (simp add: size_t_less_iff [OF d(3,4)] uy)
  show "unat (of_nat (snd c) * word_of_int (width img) + of_nat (fst c) :: size_t) = idx img c"
    using unat_index [OF d(1,2) _ d(4), of "of_nat (snd c)" "of_nat (fst c)"] x y
    by (simp add: ux uy idx_def)
  show "idx img c < length (pixels img)"
    unfolding idx_def len by (rule idx_less [OF x y])
qed

lemma get_pixel_in_grid:
  assumes "decoded img" "in_grid img c"
  shows "get_pixel img (of_nat (fst c)) (of_nat (snd c)) = Inr (pixels img ! idx img c)"
  by (simp add: get_pixel_def vec_at_def in_grid_facts [OF assms])

lemma same_shape_decoded:
  assumes "decoded img" "same_shape a img"
  shows "decoded a" "in_grid a c = in_grid img c" "idx a c = idx img c"
  using assms by (simp_all add: decoded_def same_shape_def in_grid_def idx_def)

lemma set_pixel_in_grid:
  assumes "decoded img" "in_grid img c"
  shows "set_pixel img (of_nat (fst c)) (of_nat (snd c)) p =
           Inr (img\<lparr>pixels := (pixels img)[idx img c := p]\<rparr>)"
  by (simp add: set_pixel_def vec_set_def in_grid_facts [OF assms])

lemma body_in_grid:
  assumes "decoded img" "decoded msk" "same_shape msk img" "same_shape a img" "in_grid img c"
  shows "body img msk alpha vr vg vb c a =
           (if pixels msk ! idx img c = BLACK then Inr a
            else case restore (pixels img ! idx img c) alpha vr vg vb of
                   Inl e \<Rightarrow> Inl e
                 | Inr p \<Rightarrow> Inr (a\<lparr>pixels := (pixels a)[idx img c := p]\<rparr>))"
proof -
  have m: "get_pixel msk (of_nat (fst c)) (of_nat (snd c)) = Inr (pixels msk ! idx img c)"
    using get_pixel_in_grid [of msk c] same_shape_decoded [OF assms(1,3)] assms(5)
    by simp
  have f: "get_pixel img (of_nat (fst c)) (of_nat (snd c)) = Inr (pixels img ! idx img c)"
    by (rule get_pixel_in_grid [OF assms(1,5)])
  have s: "set_pixel a (of_nat (fst c)) (of_nat (snd c)) p =
             Inr (a\<lparr>pixels := (pixels a)[idx img c := p]\<rparr>)" for p
    using set_pixel_in_grid [of a c p] same_shape_decoded [OF assms(1,4)] assms(5)
    by simp
  show ?thesis
    by (simp add: body_def m f s split: sum.splits)
qed

lemma u8_of_float_error: "u8_of_float v = Inl e \<Longrightarrow> e = UnrepresentableConversion"
  by (cases v) (auto split: if_splits)

lemma restore_error: "restore p alpha vr vg vb = Inl e \<Longrightarrow> e = UnrepresentableConversion"
  by (auto simp: restore_def split: sum.splits dest: u8_of_float_error)

lemma fold_step_Inl: "fold (step img msk alpha vr vg vb) cs (Inl e) = Inl e"
  by (induction cs) (simp_all add: step_def)

text \<open>
  The loop over a list of coordinates of the grid, in closed form: it stops with undefined
  behaviour when a conversion at one of them is undefined, and otherwise has replaced
  exactly the pixels at the coordinates whose mask pixel is not black.
\<close>

lemma fold_step_closed:
  assumes "decoded img" "decoded msk" "same_shape msk img"
  shows "same_shape a img \<Longrightarrow> \<forall>c\<in>set cs. in_grid img c \<Longrightarrow>
         fold (step img msk alpha vr vg vb) cs (Inr a) =
           (if \<exists>c\<in>set cs. pixels msk ! idx img c \<noteq> BLACK
                  \<and> isl (restore (pixels img ! idx img c) alpha vr vg vb)
            then Inl UnrepresentableConversion
            else Inr (a\<lparr>pixels :=
                   map (\<lambda>j. if j \<in> idx img ` set cs \<and> pixels msk ! j \<noteq> BLACK
                            then projr (restore (pixels img ! j) alpha vr vg vb)
                            else pixels a ! j) [0 ..< length (pixels a)]\<rparr>))"
proof (induction cs arbitrary: a)
  case Nil
  then show ?case by (simp add: map_nth)
next
  case (Cons c cs)
  let ?i = "idx img c"
  have cg: "in_grid img c" and rest: "\<forall>c\<in>set cs. in_grid img c"
    using Cons.prems(2) by simp_all
  note b = body_in_grid [OF assms(1,2,3) Cons.prems(1) cg, of alpha vr vg vb]
  show ?case
  proof (cases "pixels msk ! ?i = BLACK")
    case True
    then have "step img msk alpha vr vg vb c (Inr a) = Inr a"
      by (simp add: step_def b)
    moreover have "(j \<in> idx img ` set (c # cs) \<and> pixels msk ! j \<noteq> BLACK)
                 = (j \<in> idx img ` set cs \<and> pixels msk ! j \<noteq> BLACK)" for j
      using True by auto
    ultimately show ?thesis
      using Cons.IH [OF Cons.prems(1) rest] True by simp
  next
    case False
    show ?thesis
    proof (cases "restore (pixels img ! ?i) alpha vr vg vb")
      case (Inl e)
      then have "step img msk alpha vr vg vb c (Inr a) = Inl UnrepresentableConversion"
        using False restore_error [OF Inl] by (simp add: step_def b)
      then show ?thesis
        using False Inl by (simp add: fold_step_Inl)
    next
      case (Inr p)
      let ?a = "a\<lparr>pixels := (pixels a)[?i := p]\<rparr>"
      have st: "step img msk alpha vr vg vb c (Inr a) = Inr ?a"
        using False Inr by (simp add: step_def b)
      have il: "?i < length (pixels a)"
        using in_grid_facts(4) [OF assms(1) cg] Cons.prems(1) by (simp add: same_shape_def)
      have sh: "same_shape ?a img"
        using Cons.prems(1) by (simp add: same_shape_def)
      have px: "map (\<lambda>j. if j \<in> idx img ` set cs \<and> pixels msk ! j \<noteq> BLACK
                         then projr (restore (pixels img ! j) alpha vr vg vb)
                         else pixels ?a ! j) [0 ..< length (pixels ?a)]
              = map (\<lambda>j. if j \<in> idx img ` set (c # cs) \<and> pixels msk ! j \<noteq> BLACK
                         then projr (restore (pixels img ! j) alpha vr vg vb)
                         else pixels a ! j) [0 ..< length (pixels a)]"
        using False Inr il by (auto simp: nth_list_update)
      have ex: "(\<exists>c'\<in>set (c # cs). pixels msk ! idx img c' \<noteq> BLACK
                    \<and> isl (restore (pixels img ! idx img c') alpha vr vg vb))
              = (\<exists>c'\<in>set cs. pixels msk ! idx img c' \<noteq> BLACK
                    \<and> isl (restore (pixels img ! idx img c') alpha vr vg vb))"
        using Inr by simp
      show ?thesis
        unfolding fold_Cons comp_def st Cons.IH [OF sh rest] ex px [symmetric]
        by simp
    qed
  qed
qed

lemma fold_nested:
  "fold (\<lambda>y. fold (\<lambda>x. f (x, y)) xs) ys s
     = fold f (concat (map (\<lambda>y. map (\<lambda>x. (x, y)) xs) ys)) s"
  by (induction ys arbitrary: s) (simp_all add: fold_map comp_def)

lemma unblend_in_order_coords:
  "unblend img msk alpha vr vg vb = unblend_in_order (coords img) img msk alpha vr vg vb"
  by (simp add: unblend_def unblend_in_order_def coords_def fold_nested)

lemma set_coords: "set (coords img) = {c. in_grid img c}"
  by (auto simp: coords_def in_grid_def)

lemma idx_coords:
  "idx img ` {c. in_grid img c} = {0 ..< nat (width img) * nat (height img)}"
proof (intro equalityI subsetI)
  fix j assume "j \<in> idx img ` {c. in_grid img c}"
  then show "j \<in> {0 ..< nat (width img) * nat (height img)}"
    by (auto simp: idx_def in_grid_def intro: idx_less)
next
  fix j assume j: "j \<in> {0 ..< nat (width img) * nat (height img)}"
  let ?w = "nat (width img)"
  have w: "0 < ?w" using j by (cases "?w = 0") simp_all
  have "in_grid img (j mod ?w, j div ?w)"
    using j w by (simp add: in_grid_def less_mult_imp_div_less mult.commute)
  moreover have "idx img (j mod ?w, j div ?w) = j"
    by (simp add: idx_def)
  ultimately show "j \<in> idx img ` {c. in_grid img c}"
    by (metis (mono_tags, lifting) image_eqI mem_Collect_eq)
qed

text \<open>
  Visiting every coordinate of the grid, in any order: the pass is the map of
  \<open>recovered_pixel\<close> over the pixels, or undefined behaviour when one conversion is.
\<close>

lemma unblend_in_order_closed:
  assumes "decoded img" "decoded msk" "same_shape msk img" "set cs = set (coords img)"
  shows "unblend_in_order cs img msk alpha vr vg vb =
           (if \<exists>j < length (pixels img).
                 isl (recovered_pixel (pixels msk ! j) (pixels img ! j) alpha vr vg vb)
            then Inl UnrepresentableConversion
            else Inr (img\<lparr>pixels :=
                   map (\<lambda>j. projr (recovered_pixel (pixels msk ! j) (pixels img ! j) alpha vr vg vb))
                       [0 ..< length (pixels img)]\<rparr>))"
proof -
  have len: "length (pixels img) = nat (width img) * nat (height img)"
    using assms(1) by (simp add: decoded_def)
  have im: "idx img ` set cs = {0 ..< length (pixels img)}"
    by (simp add: assms(4) set_coords idx_coords len)
  have grid: "\<forall>c\<in>set cs. in_grid img c"
    by (simp add: assms(4) set_coords)
  have sh: "same_shape img img" by (simp add: same_shape_def)
  have ex: "(\<exists>c\<in>set cs. pixels msk ! idx img c \<noteq> BLACK
                \<and> isl (restore (pixels img ! idx img c) alpha vr vg vb))
          = (\<exists>j < length (pixels img).
                isl (recovered_pixel (pixels msk ! j) (pixels img ! j) alpha vr vg vb))"
    (is "?L = ?R")
  proof
    assume ?L
    then obtain c where "c \<in> set cs" "pixels msk ! idx img c \<noteq> BLACK"
      "isl (restore (pixels img ! idx img c) alpha vr vg vb)" by blast
    moreover from this im have "idx img c < length (pixels img)" by auto
    ultimately show ?R by (auto simp: recovered_pixel_def)
  next
    assume ?R
    then obtain j where j: "j < length (pixels img)"
      "isl (recovered_pixel (pixels msk ! j) (pixels img ! j) alpha vr vg vb)" by blast
    from j(1) im have "j \<in> idx img ` set cs" by simp
    then obtain c where "c \<in> set cs" "idx img c = j" by (rule imageE) simp
    with j(2) show ?L by (auto simp: recovered_pixel_def split: if_splits)
  qed
  have px: "map (\<lambda>j. if j \<in> idx img ` set cs \<and> pixels msk ! j \<noteq> BLACK
                     then projr (restore (pixels img ! j) alpha vr vg vb)
                     else pixels img ! j) [0 ..< length (pixels img)]
          = map (\<lambda>j. projr (recovered_pixel (pixels msk ! j) (pixels img ! j) alpha vr vg vb))
                [0 ..< length (pixels img)]"
    by (simp add: im recovered_pixel_def)
  show ?thesis
    unfolding unblend_in_order_def
      fold_step_closed [OF assms(1,2,3) sh grid, of alpha vr vg vb] ex px ..
qed

lemma unblend_closed:
  assumes "decoded img" "decoded msk" "same_shape msk img"
  shows "unblend img msk alpha vr vg vb =
           (if \<exists>j < length (pixels img).
                 isl (recovered_pixel (pixels msk ! j) (pixels img ! j) alpha vr vg vb)
            then Inl UnrepresentableConversion
            else Inr (img\<lparr>pixels :=
                   map (\<lambda>j. projr (recovered_pixel (pixels msk ! j) (pixels img ! j) alpha vr vg vb))
                       [0 ..< length (pixels img)]\<rparr>))"
  unfolding unblend_in_order_coords
  by (rule unblend_in_order_closed [OF assms refl])

text \<open>What a pass that returns has left at each coordinate of the grid.\<close>

lemma unblend_result:
  assumes "decoded img" "decoded msk" "same_shape msk img"
    and "unblend img msk alpha vr vg vb = Inr rec"
  shows "same_shape rec img" "decoded rec"
    and "\<And>j. j < length (pixels img) \<Longrightarrow>
           recovered_pixel (pixels msk ! j) (pixels img ! j) alpha vr vg vb = Inr (pixels rec ! j)"
proof -
  let ?P = "\<lambda>j. recovered_pixel (pixels msk ! j) (pixels img ! j) alpha vr vg vb"
  note cl = unblend_closed [OF assms(1,2,3), of alpha vr vg vb]
  have ok: "\<not> (\<exists>j < length (pixels img). isl (?P j))"
    using assms(4) cl by (auto split: if_splits)
  have rec: "rec = img\<lparr>pixels := map (\<lambda>j. projr (?P j)) [0 ..< length (pixels img)]\<rparr>"
    using assms(4) cl ok by simp
  show sh: "same_shape rec img" by (simp add: rec same_shape_def)
  show "decoded rec" using assms(1) sh by (simp add: decoded_def same_shape_def)
  show "?P j = Inr (pixels rec ! j)" if "j < length (pixels img)" for j
  proof -
    have "\<not> isl (?P j)" using ok that by blast
    then have "?P j = Inr (projr (?P j))" by (cases "?P j") simp_all
    then show ?thesis using that by (simp add: rec)
  qed
qed

lemma unblend_at:
  assumes "decoded img" "decoded msk" "same_shape msk img"
    and "unblend img msk alpha vr vg vb = Inr rec"
    and "x < nat (width img)" "y < nat (height img)"
  shows "\<exists>m f. get_pixel msk (of_nat x) (of_nat y) = Inr m
             \<and> get_pixel img (of_nat x) (of_nat y) = Inr f
             \<and> get_pixel rec (of_nat x) (of_nat y) = recovered_pixel m f alpha vr vg vb"
proof -
  have g: "in_grid img (x, y)" using assms(5,6) by (simp add: in_grid_def)
  note res = unblend_result [OF assms(1-4)]
  note ssm = same_shape_decoded [OF assms(1,3)]
  note ssr = same_shape_decoded [OF assms(1) res(1)]
  have m: "get_pixel msk (of_nat x) (of_nat y) = Inr (pixels msk ! idx img (x, y))"
    using get_pixel_in_grid [OF assms(2), of "(x, y)"] g ssm by simp
  have f: "get_pixel img (of_nat x) (of_nat y) = Inr (pixels img ! idx img (x, y))"
    using get_pixel_in_grid [OF assms(1) g] by simp
  have o: "get_pixel rec (of_nat x) (of_nat y) = Inr (pixels rec ! idx img (x, y))"
    using get_pixel_in_grid [OF res(2), of "(x, y)"] g ssr by simp
  have "idx img (x, y) < length (pixels img)"
    by (rule in_grid_facts(4) [OF assms(1) g])
  from res(3) [OF this] m f o show ?thesis by simp
qed

lemma unblend_all_black:
  assumes "decoded img" "decoded msk" "same_shape msk img"
    and "\<And>x y. x < nat (width img) \<Longrightarrow> y < nat (height img)
           \<Longrightarrow> get_pixel msk (of_nat x) (of_nat y) = Inr BLACK"
  shows "unblend img msk alpha vr vg vb = Inr img"
proof -
  have len: "length (pixels img) = nat (width img) * nat (height img)"
    using assms(1) by (simp add: decoded_def)
  have blk: "pixels msk ! j = BLACK" if "j < length (pixels img)" for j
  proof -
    from that have "j \<in> idx img ` {c. in_grid img c}" by (simp add: idx_coords len)
    then obtain c where c: "in_grid img c" "idx img c = j" by (rule imageE) simp
    have "get_pixel msk (of_nat (fst c)) (of_nat (snd c)) = Inr (pixels msk ! idx img c)"
      using get_pixel_in_grid [OF assms(2), of c] c(1) same_shape_decoded [OF assms(1,3)]
      by simp
    moreover have "get_pixel msk (of_nat (fst c)) (of_nat (snd c)) = Inr BLACK"
      using c(1) by (intro assms(4)) (simp_all add: in_grid_def)
    ultimately show ?thesis using c(2) by simp
  qed
  have "map (\<lambda>j. projr (recovered_pixel (pixels msk ! j) (pixels img ! j) alpha vr vg vb))
            [0 ..< length (pixels img)] = map (\<lambda>j. pixels img ! j) [0 ..< length (pixels img)]"
    by (rule map_cong) (simp_all add: blk recovered_pixel_def)
  then show ?thesis
    by (simp add: unblend_closed [OF assms(1,2,3)] blk recovered_pixel_def map_nth)
qed

lemma u8_of_int_mod: "u8_of_int (v mod 256) = u8_of_int v"
  by (simp add: u8_of_int_def word_of_int_eq_iff take_bit_eq_mod)

section \<open>Rounding\<close>

text \<open>The exponent found by the search, and the distance of the rounded significand.\<close>

lemma exp_search_le:
  "a < 2 powi (E + 1) \<Longrightarrow> e0 \<le> E \<Longrightarrow> exp_search k e0 a \<le> E"
proof (induction k arbitrary: e0)
  case 0
  then show ?case by simp
next
  case (Suc k)
  show ?case
  proof (cases "a < 2 powi (e0 + 1)")
    case True
    then show ?thesis using Suc.prems by simp
  next
    case False
    have "e0 + 1 \<le> E"
    proof (rule ccontr)
      assume "\<not> e0 + 1 \<le> E"
      then have "E + 1 \<le> e0 + 1" by simp
      then have "(2::rat) powi (E + 1) \<le> 2 powi (e0 + 1)"
        by (intro power_int_increasing) simp_all
      with Suc.prems(1) False show False by simp
    qed
    with Suc.IH [OF Suc.prems(1)] False show ?thesis by simp
  qed
qed

lemma exp_search_ge: "e0 \<le> exp_search k e0 a"
proof (induction k arbitrary: e0)
  case 0
  show ?case by simp
next
  case (Suc k)
  from Suc [of "e0 + 1"] show ?case by simp
qed

lemma exp_search_upper: "exp_search k e0 a \<le> e0 + int k"
proof (induction k arbitrary: e0)
  case 0
  show ?case by simp
next
  case (Suc k)
  from Suc [of "e0 + 1"] show ?case by simp
qed

lemma exp_search_less:
  "exp_search k e0 a < e0 + int k \<Longrightarrow> a < 2 powi (exp_search k e0 a + 1)"
proof (induction k arbitrary: e0)
  case 0
  then show ?case by simp
next
  case (Suc k)
  show ?case
  proof (cases "a < 2 powi (e0 + 1)")
    case True
    then show ?thesis by simp
  next
    case False
    with Suc.prems have "exp_search k (e0 + 1) a < (e0 + 1) + int k" by simp
    from Suc.IH [OF this] False show ?thesis by simp
  qed
qed

lemma round_half_even_of_int: "round_half_even (of_int n) = n"
  by (simp add: round_half_even_def)

lemma round_half_even_close: "\<bar>of_int (round_half_even x) - x\<bar> \<le> 1 / 2"
proof -
  have "of_int \<lfloor>x\<rfloor> \<le> x" "x < of_int \<lfloor>x\<rfloor> + 1" by linarith+
  then show ?thesis
    by (auto simp: round_half_even_def Let_def)
qed

text \<open>
  A dyadic number with a significand of at most 24 bits and an exponent in range is a
  binary32 number: rounding leaves it alone. Below the overflow threshold the result is
  finite.
\<close>

lemma round32_not_NaN [simp]: "round32 q \<noteq> NaN"
  by (simp add: round32_def Let_def zero_of_def inf_of_def)

lemma round32_dyadic:
  assumes "\<bar>n\<bar> < 2 ^ 24" "- 149 \<le> k" "k \<le> 104"
  shows "round32 (of_int n * 2 powi k) = Num (of_int n * 2 powi k)"
proof (cases "n = 0")
  case True
  then show ?thesis by (simp add: round32_def)
next
  case False
  define q :: rat where "q = of_int n * 2 powi k"
  define a where "a = \<bar>q\<bar>"
  define e where "e = exp_search 253 (- 126) a"
  define u :: rat where "u = 2 powi (e - 23)"
  have q0: "q \<noteq> 0" using False by (simp add: q_def)
  have a_eq: "a = of_int \<bar>n\<bar> * 2 powi k"
    by (simp add: a_def q_def abs_mult)
  have "of_int \<bar>n\<bar> < (2::rat) ^ 24"
    using assms(1) by (metis of_int_less_numeral_power_cancel_iff)
  then have "a < 2 ^ 24 * 2 powi k"
    unfolding a_eq by (intro mult_strict_right_mono) simp_all
  also have "\<dots> = 2 powi (k + 24)"
    by (simp add: power_int_add)
  finally have a_lt: "a < 2 powi (k + 23 + 1)" by (simp add: add.assoc)
  have e_le: "e \<le> k + 23"
    unfolding e_def using a_lt assms(2) by (intro exp_search_le) simp_all
  have "(2::rat) powi (k + 24) \<le> 2 powi 128"
    using assms(3) by (intro power_int_increasing) simp_all
  with a_lt have a128: "a < 2 powi 128" by (simp add: add.assoc)
  define d where "d = nat (k - (e - 23))"
  have kd: "k = (e - 23) + int d" using e_le by (simp add: d_def)
  have pk: "(2::rat) powi k = 2 ^ d * u"
    unfolding u_def by (subst kd) (simp add: power_int_add)
  have u0: "u \<noteq> 0" by (simp add: u_def)
  have "a / u = of_int (\<bar>n\<bar> * 2 ^ d)"
    using u0 by (simp add: a_eq pk)
  then have rh: "round_half_even (a / u) = \<bar>n\<bar> * 2 ^ d"
    by (simp only: round_half_even_of_int)
  have m: "of_int (round_half_even (a / u)) * u = a"
    unfolding rh by (simp add: a_eq pk)
  have a0: "a \<noteq> 0" using q0 by (simp add: a_def)
  have "round32 q = Num (if q < 0 then - a else a)"
    using q0 a128 a0 m
    by (simp add: round32_def Let_def a_def [symmetric] e_def [symmetric] u_def [symmetric])
  also have "(if q < 0 then - a else a) = q" by (simp add: a_def)
  finally show ?thesis by (simp add: q_def)
qed

lemma round32_int: "\<bar>n\<bar> < 2 ^ 24 \<Longrightarrow> round32 (of_int n) = Num (of_int n)"
  using round32_dyadic [of n 0] by simp

lemma round32_finite:
  assumes "\<bar>q\<bar> < 2 ^ 128 - 2 ^ 103"
  shows "\<not> is_inf (round32 q)"
proof (cases "q = 0")
  case True
  then show ?thesis by (simp add: round32_def is_inf_def)
next
  case False
  define a where "a = \<bar>q\<bar>"
  define e where "e = exp_search 253 (- 126) a"
  define u :: rat where "u = 2 powi (e - 23)"
  define n where "n = round_half_even (a / u)"
  have u0: "0 < u" by (simp add: u_def)
  have pw: "2 powi (e + 1) = 2 ^ 24 * u"
    unfolding u_def using power_int_add [of "2::rat" 24 "e - 23"] by (simp add: add.commute)
  have e_hi: "e \<le> 127" unfolding e_def using exp_search_upper [of 253 "- 126" a] by simp
  have close: "of_int n \<le> a / u + 1 / 2"
    using round_half_even_close [of "a / u"] unfolding n_def by linarith
  have "of_int n * u < 2 powi 128"
  proof (cases "e = 127")
    case True
    then have u: "u = 2 ^ 104" by (simp add: u_def)
    have "a / u < 16777216 - 1 / 2"
      using assms by (simp add: a_def u field_simps)
    with close have "(of_int n :: rat) < 16777216" by linarith
    then have "n \<le> 16777215" by simp
    then have "(of_int n :: rat) \<le> 2 ^ 24 - 1" by simp
    then have "of_int n * u \<le> (2 ^ 24 - 1) * u"
      using u0 by (intro mult_right_mono) simp_all
    also have "\<dots> < 2 powi 128" by (simp add: u)
    finally show ?thesis .
  next
    case False
    with e_hi have lt: "e < - 126 + int 253" by simp
    have "a < 2 powi (e + 1)"
      using exp_search_less [of 253 "- 126" a] lt by (simp add: e_def)
    also have "\<dots> = 2 ^ 24 * u" by (rule pw)
    finally have "a / u < 16777216" using u0 by (simp add: field_simps)
    with close have "(of_int n :: rat) < 16777217" by linarith
    then have "n \<le> 16777216" by simp
    then have "(of_int n :: rat) \<le> 2 ^ 24" by simp
    then have "of_int n * u \<le> 2 ^ 24 * u"
      using u0 by (intro mult_right_mono) simp_all
    also have "\<dots> = 2 powi (e + 1)" by (rule pw [symmetric])
    also have "\<dots> \<le> 2 powi 127"
      using False e_hi by (intro power_int_increasing) simp_all
    also have "\<dots> < 2 powi 128" by simp
    finally show ?thesis .
  qed
  then show ?thesis
    using False
    by (simp add: round32_def Let_def a_def [symmetric] e_def [symmetric] u_def [symmetric]
        n_def [symmetric] is_inf_def zero_of_def)
qed

section \<open>The restored channel\<close>

text \<open>
  For a finite non-zero \<^verbatim>\<open>alpha\<close> the value of \<^verbatim>\<open>Eq\<close> is never a NaN, so that the clamped
  value converts to a channel and the pass returns.
\<close>

lemma fneg_NaN [simp]: "fneg t = NaN \<longleftrightarrow> t = NaN"
  by (cases t) simp_all

lemma fneg_is_inf [simp]: "is_inf (fneg t) \<longleftrightarrow> is_inf t"
  by (cases t) (simp_all add: is_inf_def)

lemma zero_of_not_NaN [simp]: "zero_of s \<noteq> NaN" "\<not> is_inf (zero_of s)"
  by (simp_all add: zero_of_def is_inf_def)

lemma inf_of_not_NaN [simp]: "inf_of s \<noteq> NaN"
  by (simp add: inf_of_def)

lemma fadd_not_NaN:
  "x \<noteq> NaN \<Longrightarrow> y \<noteq> NaN \<Longrightarrow> \<not> (is_inf x \<and> is_inf y) \<Longrightarrow> fadd x y \<noteq> NaN"
  by (auto simp: fadd_def)

lemma fmul_not_NaN:
  "x \<noteq> NaN \<Longrightarrow> y \<noteq> NaN \<Longrightarrow> \<not> is_inf x \<Longrightarrow> \<not> is_inf y \<Longrightarrow> fmul x y \<noteq> NaN"
  by (auto simp: fmul_def)

lemma fdiv_not_NaN:
  "x \<noteq> NaN \<Longrightarrow> q \<noteq> 0 \<Longrightarrow> fdiv x (Num q) \<noteq> NaN"
  by (auto simp: fdiv_def is_inf_def is_zero_def)

lemma one_minus_finite:
  assumes "finite_nonzero alpha"
  shows "fsub (Num 1) alpha \<noteq> NaN" "\<not> is_inf (fsub (Num 1) alpha)"
proof -
  from assms obtain q where a: "alpha = Num q" "q \<noteq> 0" "\<bar>q\<bar> \<le> 2 ^ 128 - 2 ^ 104"
    by (cases alpha) (simp_all add: finite_nonzero_def)
  have "\<bar>1 - q\<bar> \<le> 1 + \<bar>q\<bar>" by simp
  also have "\<dots> < 2 ^ 128 - 2 ^ 103" using a(3) by simp
  finally have fin: "\<not> is_inf (round32 (1 - q))" by (rule round32_finite)
  have s: "fsub (Num 1) alpha = (if 1 - q = 0 then Num 0 else round32 (1 - q))"
    using a(2) by (simp add: a(1) fsub_def fadd_def is_inf_def is_zero_def)
  show "fsub (Num 1) alpha \<noteq> NaN" by (simp add: s)
  show "\<not> is_inf (fsub (Num 1) alpha)" using fin by (simp add: s is_inf_def)
qed

lemma Eq_value_not_NaN:
  assumes "finite_nonzero alpha"
  shows "Eq_value c alpha v \<noteq> NaN"
proof -
  from assms obtain q where a: "alpha = Num q" "q \<noteq> 0"
    by (cases alpha) (simp_all add: finite_nonzero_def)
  have t: "fmul (float_of_u8 v) (fsub (Num 1) alpha) \<noteq> NaN"
    using one_minus_finite [OF assms]
    by (intro fmul_not_NaN) (simp_all add: float_of_u8_def is_inf_def)
  have "fsub (float_of_u8 c) (fmul (float_of_u8 v) (fsub (Num 1) alpha)) \<noteq> NaN"
    unfolding fsub_def [of "float_of_u8 c"] using t
    by (intro fadd_not_NaN) (simp_all add: float_of_u8_def is_inf_def)
  then show ?thesis
    unfolding Eq_value_def a(1) by (rule fdiv_not_NaN) (rule a(2))
qed

lemma u8_of_float_clamp:
  "u8_of_float (clamp v (Num 0) (Num 255)) =
     (if v = NaN then Inl UnrepresentableConversion else Inr (clamped_u8 v))"
proof (cases v)
  case (Num q)
  have "0 \<le> \<lfloor>q\<rfloor> \<and> \<lfloor>q\<rfloor> \<le> 255" if "0 \<le> q" "q \<le> 255"
    using that by (simp add: floor_le_iff)
  then show ?thesis
    by (auto simp: Num clamp_def clamped_u8_def trunc_to_zero_def)
qed (simp_all add: clamp_def clamped_u8_def trunc_to_zero_def)

lemma restore_eq:
  "restore f alpha vr vg vb =
     (if Eq_value (r f) alpha (u8_of_int vr) = NaN \<or> Eq_value (g f) alpha (u8_of_int vg) = NaN
         \<or> Eq_value (b f) alpha (u8_of_int vb) = NaN
      then Inl UnrepresentableConversion
      else Inr \<lparr>r = clamped_u8 (Eq_value (r f) alpha (u8_of_int vr)),
               g = clamped_u8 (Eq_value (g f) alpha (u8_of_int vg)),
               b = clamped_u8 (Eq_value (b f) alpha (u8_of_int vb))\<rparr>)"
  by (simp add: restore_def Eq_def u8_of_float_clamp)

lemma recovered_pixel_returns:
  "finite_nonzero alpha \<Longrightarrow> \<not> isl (recovered_pixel m f alpha vr vg vb)"
  by (simp add: recovered_pixel_def restore_eq Eq_value_not_NaN)

lemma unblend_returns:
  assumes "decoded img" "decoded msk" "same_shape msk img" "finite_nonzero alpha"
  shows "\<exists>rec. unblend img msk alpha vr vg vb = Inr rec"
  by (simp add: unblend_closed [OF assms(1,2,3)] recovered_pixel_returns [OF assms(4)])

text \<open>
  Operations whose exact result is a binary32 number return it. For \<^verbatim>\<open>alpha\<close> a power of
  two down to \<open>1 / 128\<close> every operation of \<^verbatim>\<open>Eq\<close> is exact.
\<close>

lemma fadd_exact:
  "round32 (a + c) = Num (a + c) \<Longrightarrow> fadd (Num a) (Num c) = Num (a + c)"
  by (auto simp: fadd_def is_inf_def is_zero_def zero_of_def)

lemma fsub_exact:
  "round32 (a - c) = Num (a - c) \<Longrightarrow> fsub (Num a) (Num c) = Num (a - c)"
  by (auto simp: fsub_def fadd_def is_inf_def is_zero_def zero_of_def)

lemma fmul_exact:
  "0 \<le> a \<Longrightarrow> 0 \<le> c \<Longrightarrow> round32 (a * c) = Num (a * c) \<Longrightarrow> fmul (Num a) (Num c) = Num (a * c)"
  by (auto simp: fmul_def is_inf_def is_zero_def zero_of_def)

lemma fdiv_exact:
  "0 < c \<Longrightarrow> round32 (a / c) = Num (a / c) \<Longrightarrow> fdiv (Num a) (Num c) = Num (a / c)"
  by (auto simp: fdiv_def is_inf_def is_zero_def zero_of_def)

lemma float_of_u8_uint: "float_of_u8 c = Num (of_int (uint c))"
  by (simp add: float_of_u8_def)

lemma uint_u8_bounds: "0 \<le> uint (c :: 8 word)" "uint (c :: 8 word) \<le> 255"
  using uint_bounded [of c] by simp_all

lemma Eq_value_pow2:
  assumes "k \<le> 7"
  shows "Eq_value c (Num (1 / 2 ^ k)) v
           = Num (of_int (2 ^ k * uint c - (2 ^ k - 1) * uint v))"
proof -
  define C where "C = uint c"
  define V where "V = uint v"
  define K :: int where "K = 2 ^ k"
  have Cb: "0 \<le> C" "C \<le> 255" and Vb: "0 \<le> V" "V \<le> 255"
    by (simp_all add: C_def V_def uint_u8_bounds)
  have "(2::int) ^ k \<le> 2 ^ 7" using assms by (intro power_increasing) simp_all
  then have Kb: "1 \<le> K" "K \<le> 128" by (simp_all add: K_def)
  have kr: "- 149 \<le> - int k" "- int k \<le> 104" using assms by simp_all
  have al: "(1::rat) / 2 ^ k = 2 powi (- int k)"
    by (simp add: power_int_minus field_simps)
  have Kr: "(of_int K :: rat) = 2 ^ k" by (simp add: K_def)
  have Kinv: "(of_int K :: rat) * 2 powi (- int k) = 1"
    by (simp add: Kr power_int_minus)
  have dy: "round32 (of_int n * 2 powi (- int k)) = Num (of_int n * 2 powi (- int k))"
    if "\<bar>n\<bar> < 2 ^ 24" for n
    by (rule round32_dyadic [OF that kr])
  \<comment> \<open>\<open>1 - alpha\<close>\<close>
  have e1: "(1::rat) - 2 powi (- int k) = of_int (K - 1) * 2 powi (- int k)"
    using Kinv by (simp add: algebra_simps)
  have s1: "fsub (Num 1) (Num (2 powi (- int k))) = Num (of_int (K - 1) * 2 powi (- int k))"
    using fsub_exact [of 1 "2 powi (- int k)"] dy [of "K - 1"] Kb unfolding e1 by simp
  \<comment> \<open>\<open>c_overlay * (1 - alpha)\<close>\<close>
  have vk: "0 \<le> V * (K - 1)" "V * (K - 1) \<le> 255 * 127"
  proof -
    show "0 \<le> V * (K - 1)" using Vb Kb by simp
    show "V * (K - 1) \<le> 255 * 127" using Vb Kb by (intro mult_mono) simp_all
  qed
  have e2: "(of_int V :: rat) * (of_int (K - 1) * 2 powi (- int k))
              = of_int (V * (K - 1)) * 2 powi (- int k)" by simp
  have s2: "fmul (Num (of_int V)) (Num (of_int (K - 1) * 2 powi (- int k)))
              = Num (of_int (V * (K - 1)) * 2 powi (- int k))"
    unfolding e2 [symmetric]
    using Vb Kb vk dy [of "V * (K - 1)"] unfolding e2 [symmetric]
    by (intro fmul_exact) simp_all
  \<comment> \<open>\<open>c_final - c_overlay * (1 - alpha)\<close>\<close>
  define D where "D = C * K - V * (K - 1)"
  have ck: "0 \<le> C * K" "C * K \<le> 255 * 128"
  proof -
    show "0 \<le> C * K" using Cb Kb by simp
    show "C * K \<le> 255 * 128" using Cb Kb by (intro mult_mono) simp_all
  qed
  have Db: "\<bar>D\<bar> < 2 ^ 24" using ck vk by (simp add: D_def)
  have e3: "(of_int C :: rat) - of_int (V * (K - 1)) * 2 powi (- int k)
              = of_int D * 2 powi (- int k)"
  proof -
    have "(of_int C :: rat) = of_int C * (of_int K * 2 powi (- int k))" by (simp only: Kinv)
    then show ?thesis by (simp add: D_def algebra_simps)
  qed
  have s3: "fsub (Num (of_int C)) (Num (of_int (V * (K - 1)) * 2 powi (- int k)))
              = Num (of_int D * 2 powi (- int k))"
    using fsub_exact [of "of_int C" "of_int (V * (K - 1)) * 2 powi (- int k)"] dy [OF Db]
    unfolding e3 by simp
  \<comment> \<open>the division by \<open>alpha\<close>\<close>
  have e4: "(of_int D * 2 powi (- int k)) / 2 powi (- int k) = (of_int D :: rat)" by simp
  have s4: "fdiv (Num (of_int D * 2 powi (- int k))) (Num (2 powi (- int k))) = Num (of_int D)"
    using fdiv_exact [of "2 powi (- int k)" "of_int D * 2 powi (- int k)"] round32_int [OF Db]
    unfolding e4 by simp
  have "D = 2 ^ k * uint c - (2 ^ k - 1) * uint v"
    by (simp add: D_def C_def V_def K_def mult.commute)
  then show ?thesis
    unfolding Eq_value_def float_of_u8_uint al C_def [symmetric] V_def [symmetric] s1 s2 s3 s4
    by simp
qed

lemma Eq_value_half:
  "Eq_value c (Num (1 / 2)) v = Num (of_int (2 * uint c - uint v))"
  using Eq_value_pow2 [of 1 c v] by simp

text \<open>
  \<^verbatim>\<open>alpha\<close> zero, of either sign: \<open>1 - alpha\<close> is 1, the numerator is the exact difference
  of the two channels, and the division gives an infinity, or a NaN for equal channels.
\<close>

lemma one_minus_zero: "fsub (Num 1) (Num 0) = Num 1" "fsub (Num 1) MinusZero = Num 1"
proof -
  have r1: "round32 1 = Num 1" using round32_int [of 1] by simp
  show "fsub (Num 1) (Num 0) = Num 1" using fsub_exact [of 1 0] r1 by simp
  show "fsub (Num 1) MinusZero = Num 1" using fadd_exact [of 1 0] r1 by (simp add: fsub_def)
qed

lemma numerator_zero_alpha:
  "fsub (float_of_u8 c) (fmul (float_of_u8 v) (Num 1)) = Num (of_int (uint c - uint v))"
proof -
  define C :: rat where "C = of_int (uint c)"
  define V :: rat where "V = of_int (uint v)"
  have "\<bar>uint v\<bar> < 16777216" "\<bar>uint c - uint v\<bar> < 16777216"
    using uint_u8_bounds [of v] uint_u8_bounds [of c] by linarith+
  then have b: "\<bar>uint v\<bar> < 2 ^ 24" "\<bar>uint c - uint v\<bar> < 2 ^ 24" by simp_all
  have V0: "0 \<le> V" unfolding V_def using uint_u8_bounds(1) [of v] by (simp only: of_int_0_le_iff)
  have rV: "round32 (V * 1) = Num (V * 1)"
    unfolding V_def using round32_int [OF b(1)] by simp
  have rD: "round32 (C - V) = Num (C - V)"
    unfolding C_def V_def using round32_int [OF b(2)] by simp
  have "fmul (Num V) (Num 1) = Num (V * 1)"
    by (rule fmul_exact [OF V0 _ rV]) simp
  moreover have "fsub (Num C) (Num V) = Num (C - V)"
    by (rule fsub_exact [OF rD])
  ultimately have "fsub (Num C) (fmul (Num V) (Num 1)) = Num (C - V)" by simp
  then show ?thesis
    unfolding float_of_u8_uint C_def V_def by simp
qed

lemma fdiv_by_zero:
  "fdiv (Num (of_int d)) (Num 0) = (if d = 0 then NaN else if d < 0 then MinusInf else PlusInf)"
  "fdiv (Num (of_int d)) MinusZero = (if d = 0 then NaN else if d < 0 then PlusInf else MinusInf)"
  by (simp_all add: fdiv_def is_inf_def is_zero_def inf_of_def)

lemma Eq_value_zero:
  "Eq_value c (Num 0) v = (if c = v then NaN else if c < v then MinusInf else PlusInf)"
  "Eq_value c MinusZero v = (if c = v then NaN else if c < v then PlusInf else MinusInf)"
proof -
  have d: "(uint c - uint v = 0) = (c = v)" "(uint c - uint v < 0) = (c < v)"
    by (simp_all add: word_less_def word_uint_eq_iff)
  show "Eq_value c (Num 0) v = (if c = v then NaN else if c < v then MinusInf else PlusInf)"
    unfolding Eq_value_def one_minus_zero numerator_zero_alpha fdiv_by_zero d ..
  show "Eq_value c MinusZero v = (if c = v then NaN else if c < v then PlusInf else MinusInf)"
    unfolding Eq_value_def one_minus_zero numerator_zero_alpha fdiv_by_zero d ..
qed

lemma clamped_u8_inf [simp]: "clamped_u8 PlusInf = 255" "clamped_u8 MinusInf = 0"
  by (simp_all add: clamped_u8_def)

lemma restore_zero_alpha:
  assumes "alpha = Num 0 \<or> alpha = MinusZero"
  shows "restore f alpha vr vg vb =
           (if r f = u8_of_int vr \<or> g f = u8_of_int vg \<or> b f = u8_of_int vb
            then Inl UnrepresentableConversion
            else Inr \<lparr>r = (if (u8_of_int vr < r f) = (alpha = Num 0) then 255 else 0),
                     g = (if (u8_of_int vg < g f) = (alpha = Num 0) then 255 else 0),
                     b = (if (u8_of_int vb < b f) = (alpha = Num 0) then 255 else 0)\<rparr>)"
proof -
  have e: "(Eq_value c alpha v = NaN) = (c = v)" for c v
    using assms by (auto simp: Eq_value_zero split: if_splits)
  have k: "clamped_u8 (Eq_value c alpha v) = (if (v < c) = (alpha = Num 0) then 255 else 0)"
    if "c \<noteq> v" for c v
  proof -
    have "v < c \<or> c < v" using that by auto
    then show ?thesis using assms that by (auto simp: Eq_value_zero)
  qed
  show ?thesis
  proof (cases "r f = u8_of_int vr \<or> g f = u8_of_int vg \<or> b f = u8_of_int vb")
    case True
    then show ?thesis by (simp add: restore_eq e)
  next
    case False
    then show ?thesis by (simp add: restore_eq e k)
  qed
qed

lemma unblend_zero_alpha:
  assumes "decoded img" "decoded msk" "same_shape msk img"
    and "alpha = Num 0 \<or> alpha = MinusZero"
  shows "unblend img msk alpha vr vg vb =
           (if \<exists>j < length (pixels img). pixels msk ! j \<noteq> BLACK
                 \<and> (r (pixels img ! j) = u8_of_int vr \<or> g (pixels img ! j) = u8_of_int vg
                      \<or> b (pixels img ! j) = u8_of_int vb)
            then Inl UnrepresentableConversion
            else Inr (img\<lparr>pixels :=
                   map (\<lambda>j. if pixels msk ! j = BLACK then pixels img ! j
                            else \<lparr>r = (if (u8_of_int vr < r (pixels img ! j)) = (alpha = Num 0)
                                       then 255 else 0),
                                  g = (if (u8_of_int vg < g (pixels img ! j)) = (alpha = Num 0)
                                       then 255 else 0),
                                  b = (if (u8_of_int vb < b (pixels img ! j)) = (alpha = Num 0)
                                       then 255 else 0)\<rparr>)
                       [0 ..< length (pixels img)]\<rparr>))"
proof -
  define bad where "bad = (\<lambda>f :: Pixel. r f = u8_of_int vr \<or> g f = u8_of_int vg \<or> b f = u8_of_int vb)"
  define sat where "sat = (\<lambda>f :: Pixel.
     \<lparr>r = (if (u8_of_int vr < r f) = (alpha = Num 0) then 255 else 0),
      g = (if (u8_of_int vg < g f) = (alpha = Num 0) then 255 else 0),
      b = (if (u8_of_int vb < b f) = (alpha = Num 0) then 255 else 0)\<rparr> :: Pixel)"
  have rs: "restore f alpha vr vg vb = (if bad f then Inl UnrepresentableConversion else Inr (sat f))"
    for f unfolding bad_def sat_def by (rule restore_zero_alpha [OF assms(4)])
  have isl: "isl (recovered_pixel m f alpha vr vg vb) = (m \<noteq> BLACK \<and> bad f)" for m f
    by (simp add: recovered_pixel_def rs)
  have pr: "projr (recovered_pixel m f alpha vr vg vb) = (if m = BLACK then f else sat f)"
    if "\<not> (m \<noteq> BLACK \<and> bad f)" for m f
    using that by (auto simp: recovered_pixel_def rs)
  have goal: "unblend img msk alpha vr vg vb =
           (if \<exists>j < length (pixels img). pixels msk ! j \<noteq> BLACK \<and> bad (pixels img ! j)
            then Inl UnrepresentableConversion
            else Inr (img\<lparr>pixels :=
                   map (\<lambda>j. if pixels msk ! j = BLACK then pixels img ! j else sat (pixels img ! j))
                       [0 ..< length (pixels img)]\<rparr>))"
  proof (cases "\<exists>j < length (pixels img). pixels msk ! j \<noteq> BLACK \<and> bad (pixels img ! j)")
    case True
    then show ?thesis
      unfolding unblend_closed [OF assms(1,2,3)] isl by simp
  next
    case False
    then have "map (\<lambda>j. projr (recovered_pixel (pixels msk ! j) (pixels img ! j) alpha vr vg vb))
                 [0 ..< length (pixels img)]
             = map (\<lambda>j. if pixels msk ! j = BLACK then pixels img ! j else sat (pixels img ! j))
                 [0 ..< length (pixels img)]"
      by (intro map_cong refl pr) auto
    with False show ?thesis
      unfolding unblend_closed [OF assms(1,2,3)] isl by simp
  qed
  show ?thesis using goal unfolding bad_def sat_def .
qed

section \<open>The example images\<close>

text \<open>The example images are decoded images of the same shape.\<close>

lemma examples_decoded:
  "decoded photo" "decoded stamp" "same_shape stamp photo"
  by (simp_all add: decoded_def same_shape_def photo_def stamp_def)

lemma get_pixel_photo:
  "get_pixel photo 0 0 = Inr \<lparr>r = 200, g = 200, b = 200\<rparr>"
  "get_pixel photo 1 0 = Inr \<lparr>r = 100, g = 150, b = 250\<rparr>"
  "get_pixel photo 0 1 = Inr \<lparr>r = 10, g = 128, b = 255\<rparr>"
  "get_pixel photo 1 1 = Inr \<lparr>r = 7, g = 8, b = 9\<rparr>"
  by (simp_all add: get_pixel_def vec_at_def photo_def)

lemma get_pixel_stamp:
  "get_pixel stamp 0 0 = Inr WHITE"
  "get_pixel stamp 1 0 = Inr \<lparr>r = 0, g = 0, b = 1\<rparr>"
  "get_pixel stamp 0 1 = Inr WHITE"
  "get_pixel stamp 1 1 = Inr BLACK"
  by (simp_all add: get_pixel_def vec_at_def stamp_def)

lemma examples_dims:
  "width photo = 2" "height photo = 2" "width stamp = 2" "height stamp = 2"
  by (simp_all add: photo_def stamp_def)

lemma not_black: "WHITE \<noteq> BLACK" "\<lparr>r = 0, g = 0, b = 1\<rparr> \<noteq> BLACK"
  by (simp_all add: WHITE_def BLACK_def)

text \<open>
  The pixels of the examples by index, and the four indices spelled out.
\<close>

lemma examples_pixels:
  "length (pixels photo) = 4" "length (pixels stamp) = 4"
  "pixels photo ! 0 = \<lparr>r = 200, g = 200, b = 200\<rparr>"
  "pixels photo ! Suc 0 = \<lparr>r = 100, g = 150, b = 250\<rparr>"
  "pixels photo ! Suc (Suc 0) = \<lparr>r = 10, g = 128, b = 255\<rparr>"
  "pixels photo ! Suc (Suc (Suc 0)) = \<lparr>r = 7, g = 8, b = 9\<rparr>"
  "pixels stamp ! 0 = WHITE" "pixels stamp ! Suc 0 = \<lparr>r = 0, g = 0, b = 1\<rparr>"
  "pixels stamp ! Suc (Suc 0) = WHITE" "pixels stamp ! Suc (Suc (Suc 0)) = BLACK"
  by (simp_all add: photo_def stamp_def)

lemma upt_4: "[0 ..< 4] = [0, Suc 0, Suc (Suc 0), Suc (Suc (Suc 0))]"
  by (simp add: upt_rec numeral_eq_Suc)

lemma ex_less_4: "(\<exists>j < 4. P j) = (P 0 \<or> P (Suc 0) \<or> P (Suc (Suc 0)) \<or> P (Suc (Suc (Suc 0))))"
  by (auto simp: numeral_eq_Suc less_Suc_eq)

section \<open>The round trip\<close>

text \<open>
  The forward blend rounds to within less than 1 of the exact blend, and to a channel
  value.
\<close>

lemma round_with_close:
  assumes "0 \<le> x" "x \<le> 255"
  shows "\<bar>of_int (round_with m x) - x\<bar> < 1" "0 \<le> round_with m x" "round_with m x \<le> 255"
proof -
  have fl: "of_int \<lfloor>x\<rfloor> \<le> x" "x < of_int \<lfloor>x\<rfloor> + 1" by linarith+
  have fh: "of_int \<lfloor>x + 1 / 2\<rfloor> \<le> x + 1 / 2" "x + 1 / 2 < of_int \<lfloor>x + 1 / 2\<rfloor> + 1" by linarith+
  have rh: "\<bar>of_int (round_half_even x) - x\<bar> \<le> 1 / 2" by (rule round_half_even_close)
  show c: "\<bar>of_int (round_with m x) - x\<bar> < 1"
    using fl fh rh by (cases m) (simp_all add: round_with_def, linarith+)
  have "- 1 < (of_int (round_with m x) :: rat)" "(of_int (round_with m x) :: rat) < 256"
    using c assms by linarith+
  then have "- 1 < round_with m x" "round_with m x < 256"
    by simp_all
  then show "0 \<le> round_with m x" "round_with m x \<le> 255" by simp_all
qed


lemma u8_rat_bounds: "(0::rat) \<le> of_int (uint (c :: 8 word))" "(of_int (uint c) :: rat) \<le> 255"
proof -
  show "(0::rat) \<le> of_int (uint c)"
    using uint_u8_bounds(1) [of c] by (simp only: of_int_0_le_iff)
  show "(of_int (uint c) :: rat) \<le> 255"
    using uint_u8_bounds(2) [of c] by (simp only: of_int_le_numeral_iff)
qed

text \<open>
  The overlay of the round trip, the shape of a composite, and the pass over a single pixel.
\<close>

lemma u8_of_int_uint: "u8_of_int (uint v) = v"
  by (simp add: u8_of_int_def)

lemma composite_shape:
  "decoded original \<Longrightarrow> decoded (composite m original alpha overlay)"
  "same_shape msk original \<Longrightarrow> same_shape msk (composite m original alpha overlay)"
  "same_shape rec (composite m original alpha overlay) \<Longrightarrow> same_shape rec original"
  by (simp_all add: decoded_def same_shape_def composite_def)

lemma unblend_dot:
  assumes "decoded img" "decoded msk" "same_shape msk img"
    and "pixels img = [f]" "pixels msk = [c_mask]" "c_mask \<noteq> BLACK"
    and "restore f alpha vr vg vb = Inr q"
  shows "unblend img msk alpha vr vg vb = Inr (img\<lparr>pixels := [q]\<rparr>)"
  unfolding unblend_closed [OF assms(1,2,3)]
  using assms(4-7) by (simp add: recovered_pixel_def)

text \<open>
  The one-pixel example: its blend with black at \<^verbatim>\<open>alpha\<close> 1/4 is 1/2 before rounding.
\<close>

lemma dot_decoded: "decoded dot" "decoded dot_mask" "same_shape dot_mask dot"
  "\<forall>p\<in>set (pixels dot_mask). p \<noteq> BLACK" "pixels dot = [\<lparr>r = 2, g = 2, b = 2\<rparr>]"
  by (simp_all add: decoded_def same_shape_def dot_def dot_mask_def WHITE_def BLACK_def)

lemma composite_dot:
  "composite m dot (1 / 4) BLACK
     = dot\<lparr>pixels := [\<lparr>r = word_of_int (round_with m (1 / 2)),
                         g = word_of_int (round_with m (1 / 2)),
                         b = word_of_int (round_with m (1 / 2))\<rparr>]\<rparr>"
  by (simp add: composite_def composite_pixel_def composite_channel_def dot_def BLACK_def)

lemma round_with_half:
  "round_with Truncate (1 / 2) = 0" "round_with NearestEven (1 / 2) = 0"
  "round_with NearestAway (1 / 2) = 1"
proof -
  have fl: "\<lfloor>1 / 2 :: rat\<rfloor> = 0" by (simp add: floor_eq_iff)
  show "round_with Truncate (1 / 2) = 0" "round_with NearestEven (1 / 2) = 0"
    "round_with NearestAway (1 / 2) = 1"
    by (simp_all add: round_with_def round_half_even_def fl)
qed

lemma restore_quarter:
  "restore \<lparr>r = c, g = c, b = c\<rparr> (Num (1 / 4)) 0 0 0
     = Inr \<lparr>r = clamped_u8 (Num (of_int (4 * uint c))), g = clamped_u8 (Num (of_int (4 * uint c))),
             b = clamped_u8 (Num (of_int (4 * uint c)))\<rparr>"
  using Eq_value_pow2 [of 2 c 0] by (simp add: restore_eq u8_of_int_def)

text \<open>
  The overlay channel that \<^verbatim>\<open>Eq\<close> receives is the number \<open>v mod 256\<close>, and a masked
  coordinate of a returned buffer holds the clamped values of \<^verbatim>\<open>Eq\<close>.
\<close>

lemma float_of_u8_of_int: "float_of_u8 (u8_of_int v) = Num (of_int (v mod 256))"
proof -
  have "uint (word_of_int v :: 8 word) = v mod 256"
    by (simp add: uint_word_of_int)
  then show ?thesis
    unfolding float_of_u8_uint u8_of_int_def by (simp only:)
qed

lemma Eq_value_overlay:
  "Eq_value c alpha (u8_of_int v)
     = fdiv (fsub (float_of_u8 c) (fmul (Num (of_int (v mod 256))) (fsub (Num 1) alpha))) alpha"
  unfolding Eq_value_def float_of_u8_of_int ..

lemma unblend_masked_at:
  assumes "decoded img" "decoded msk" "same_shape msk img"
    and "unblend img msk alpha vr vg vb = Inr rec"
    and "x < nat (width img)" "y < nat (height img)"
    and "get_pixel msk (of_nat x) (of_nat y) = Inr m" "m \<noteq> BLACK"
    and "get_pixel img (of_nat x) (of_nat y) = Inr f"
  shows "get_pixel rec (of_nat x) (of_nat y)
           = Inr \<lparr>r = clamped_u8 (Eq_value (r f) alpha (u8_of_int vr)),
                  g = clamped_u8 (Eq_value (g f) alpha (u8_of_int vg)),
                  b = clamped_u8 (Eq_value (b f) alpha (u8_of_int vb))\<rparr>"
proof -
  note res = unblend_result [OF assms(1-4)]
  have g: "in_grid img (x, y)" using assms(5,6) by (simp add: in_grid_def)
  have "in_grid rec (x, y)" using same_shape_decoded(2) [OF assms(1) res(1)] g by simp
  from get_pixel_in_grid [OF res(2) this]
  have ok: "\<not> isl (get_pixel rec (of_nat x) (of_nat y))" by simp
  from unblend_at [OF assms(1-6)] assms(7,8,9)
  have eq: "get_pixel rec (of_nat x) (of_nat y) = restore f alpha vr vg vb"
    by (auto simp: recovered_pixel_def)
  from ok show ?thesis unfolding eq by (auto simp: restore_eq split: if_splits)
qed

section \<open>The error of the inverse\<close>

text \<open>
  Rounding to binary32 changes a value below the overflow threshold by at most the
  fraction \<open>2 ^ - 24\<close> of it, or by \<open>2 ^ - 150\<close> among the subnormal numbers.
\<close>

lemma exp_search_lower:
  "e0 < exp_search k e0 a \<Longrightarrow> 2 powi (exp_search k e0 a) \<le> a"
proof (induction k arbitrary: e0)
  case 0
  then show ?case by simp
next
  case (Suc k)
  show ?case
  proof (cases "a < 2 powi (e0 + 1)")
    case True
    with Suc.prems show ?thesis by simp
  next
    case False
    show ?thesis
    proof (cases "e0 + 1 < exp_search k (e0 + 1) a")
      case True
      from Suc.IH [OF True] False show ?thesis by simp
    next
      case F2: False
      with exp_search_ge [of "e0 + 1" k a] have "exp_search k (e0 + 1) a = e0 + 1" by simp
      with False show ?thesis by simp
    qed
  qed
qed

lemma round_half_even_nonneg: "0 \<le> x \<Longrightarrow> 0 \<le> round_half_even x"
  by (auto simp: round_half_even_def Let_def)

lemma round32_error:
  assumes "\<bar>y\<bar> < 2 ^ 128 - 2 ^ 103"
  shows "is_finite (round32 y)"
    and "\<bar>val (round32 y) - y\<bar> \<le> \<bar>y\<bar> / 2 ^ 24 + 1 / 2 ^ 150"
proof -
  show fin: "is_finite (round32 y)"
    using round32_finite [OF assms] by (simp add: is_finite_def)
  show "\<bar>val (round32 y) - y\<bar> \<le> \<bar>y\<bar> / 2 ^ 24 + 1 / 2 ^ 150"
  proof (cases "y = 0")
    case True
    then show ?thesis by (simp add: round32_def)
  next
    case False
    define a where "a = \<bar>y\<bar>"
    define e where "e = exp_search 253 (- 126) a"
    define u :: rat where "u = 2 powi (e - 23)"
    define n where "n = round_half_even (a / u)"
    define m where "m = of_int n * u"
    have u0: "0 < u" by (simp add: u_def)
    have a0: "0 < a" using False by (simp add: a_def)
    have n0: "0 \<le> n" unfolding n_def using a0 u0 by (intro round_half_even_nonneg) simp
    have r: "round32 y = (if 2 powi 128 \<le> m then inf_of (y < 0)
                         else if m = 0 then zero_of (y < 0)
                         else Num (if y < 0 then - m else m))"
      using False
      by (simp add: round32_def Let_def a_def [symmetric] e_def [symmetric] u_def [symmetric]
          n_def [symmetric] m_def [symmetric])
    have "\<not> 2 powi 128 \<le> m"
      using fin unfolding r by (auto simp: is_finite_def is_inf_def inf_of_def split: if_splits)
    then have v: "val (round32 y) = (if y < 0 then - m else m)"
      unfolding r by (simp add: zero_of_def)
    have "\<bar>val (round32 y) - y\<bar> = \<bar>m - a\<bar>"
      unfolding v a_def by (simp add: abs_if)
    also have "\<dots> = \<bar>of_int n - a / u\<bar> * u"
    proof -
      have "m - a = (of_int n - a / u) * u" using u0 by (simp add: m_def algebra_simps)
      then show ?thesis using u0 by (simp add: abs_mult)
    qed
    also have "\<dots> \<le> (1 / 2) * u"
      using round_half_even_close [of "a / u"] u0 unfolding n_def
      by (intro mult_right_mono) simp_all
    also have "\<dots> = 2 powi (e - 24)"
      unfolding u_def using power_int_add [of "2::rat" "e - 24" 1] by simp
    finally have b: "\<bar>val (round32 y) - y\<bar> \<le> 2 powi (e - 24)" .
    have ge: "- 126 \<le> e" unfolding e_def by (rule exp_search_ge)
    show ?thesis
    proof (cases "e = - 126")
      case True
      have "(2::rat) powi (- 150) = 1 / 2 ^ 150" by (simp add: power_int_minus field_simps)
      with b True have "\<bar>val (round32 y) - y\<bar> \<le> 1 / 2 ^ 150" by simp
      moreover have "0 \<le> \<bar>y\<bar> / 2 ^ 24" by simp
      ultimately show ?thesis by linarith
    next
      case F: False
      with ge have "- 126 < exp_search 253 (- 126) a" by (simp add: e_def)
      from exp_search_lower [OF this] have "2 powi e \<le> a" by (simp add: e_def)
      moreover have "(2::rat) powi (e - 24) = 2 powi e / 2 ^ 24"
        using power_int_diff [of "2::rat" e 24] by simp
      ultimately have "2 powi (e - 24) \<le> a / 2 ^ 24"
        by (simp add: divide_right_mono)
      with b have "\<bar>val (round32 y) - y\<bar> \<le> \<bar>y\<bar> / 2 ^ 24" by (simp add: a_def)
      then show ?thesis by simp
    qed
  qed
qed

text \<open>
  On finite values every operation gives the rounding of the exact result, whatever the
  signs of the zeros.
\<close>

lemma round32_error_simple:
  assumes "\<bar>y\<bar> \<le> B" "B < 2 ^ 100"
  shows "is_finite (round32 y)" "\<bar>val (round32 y) - y\<bar> \<le> (B + 1) / 2 ^ 24"
proof -
  have "(2::rat) ^ 100 \<le> 2 ^ 128 - 2 ^ 103" by simp
  with assms have y: "\<bar>y\<bar> < 2 ^ 128 - 2 ^ 103" by linarith
  show "is_finite (round32 y)" by (rule round32_error(1) [OF y])
  have "\<bar>y\<bar> / 2 ^ 24 \<le> B / 2 ^ 24" using assms(1) by (simp add: divide_right_mono)
  moreover have "(1::rat) / 2 ^ 150 \<le> 1 / 2 ^ 24" by simp
  moreover have "(B + 1) / 2 ^ 24 = B / 2 ^ 24 + 1 / 2 ^ 24" by (simp add: add_divide_distrib)
  ultimately show "\<bar>val (round32 y) - y\<bar> \<le> (B + 1) / 2 ^ 24"
    using round32_error(2) [OF y] by linarith
qed

lemma is_finite_cases: "is_finite v \<longleftrightarrow> (\<exists>q. v = Num q) \<or> v = MinusZero"
  by (cases v) (simp_all add: is_finite_def is_inf_def)

lemma is_finite_simps [simp]: "is_finite (Num q)" "is_finite MinusZero" "is_finite (zero_of s)"
  by (simp_all add: is_finite_def is_inf_def zero_of_def)

lemma fneg_val [simp]: "val (fneg v) = - val v"
  by (cases v) simp_all

lemma fneg_finite [simp]: "is_finite (fneg v) = is_finite v"
  by (cases v) (simp_all add: is_finite_def is_inf_def)

lemma zero_of_val [simp]: "val (zero_of s) = 0"
  by (simp add: zero_of_def)

lemma is_zero_val: "is_zero v \<Longrightarrow> val v = 0"
  by (auto simp: is_zero_def)

lemma round32_zero [simp]: "round32 0 = Num 0"
  by (simp add: round32_def)

lemma fadd_val:
  assumes "is_finite x" "is_finite y"
  shows "val (fadd x y) = val (round32 (val x + val y))"
    and "is_finite (round32 (val x + val y)) \<Longrightarrow> is_finite (fadd x y)"
  using assms by (auto simp: fadd_def is_finite_def is_zero_val)

lemma fsub_val:
  assumes "is_finite x" "is_finite y"
  shows "val (fsub x y) = val (round32 (val x - val y))"
    and "is_finite (round32 (val x - val y)) \<Longrightarrow> is_finite (fsub x y)"
  using fadd_val [of x "fneg y"] assms by (simp_all add: fsub_def)

lemma fmul_val:
  assumes "is_finite x" "is_finite y"
  shows "val (fmul x y) = val (round32 (val x * val y))"
    and "is_finite (round32 (val x * val y)) \<Longrightarrow> is_finite (fmul x y)"
proof -
  have z: "is_zero v \<Longrightarrow> val v = 0" for v by (auto simp: is_zero_def)
  show "val (fmul x y) = val (round32 (val x * val y))"
    using assms by (auto simp: fmul_def is_finite_def z)
  show "is_finite (round32 (val x * val y)) \<Longrightarrow> is_finite (fmul x y)"
    using assms by (auto simp: fmul_def is_finite_def)
qed

lemma fdiv_val:
  assumes "is_finite x" "q \<noteq> 0"
  shows "val (fdiv x (Num q)) = val (round32 (val x / q))"
    and "is_finite (round32 (val x / q)) \<Longrightarrow> is_finite (fdiv x (Num q))"
proof -
  have z: "is_zero v \<Longrightarrow> val v = 0" for v by (auto simp: is_zero_def)
  show "val (fdiv x (Num q)) = val (round32 (val x / q))"
    using assms by (auto simp: fdiv_def is_finite_def is_zero_def is_inf_def z)
  show "is_finite (round32 (val x / q)) \<Longrightarrow> is_finite (fdiv x (Num q))"
    using assms by (auto simp: fdiv_def is_finite_def is_zero_def is_inf_def zero_of_def)
qed

text \<open>
  For \<^verbatim>\<open>alpha\<close> from \<open>1 / 512\<close> to 1 the value of \<^verbatim>\<open>Eq\<close> is finite and within
  \<open>2 ^ - 12 / alpha\<close> of the exact quotient.
\<close>

lemma Eq_value_error:
  assumes "1 / 512 \<le> alpha" "alpha \<le> 1"
  shows "is_finite (Eq_value c (Num alpha) v)"
    and "\<bar>val (Eq_value c (Num alpha) v)
            - (of_int (uint c) - of_int (uint v) * (1 - alpha)) / alpha\<bar> \<le> (1 / 4096) / alpha"
proof -
  define C :: rat where "C = of_int (uint c)"
  define V :: rat where "V = of_int (uint v)"
  have Cb: "0 \<le> C" "C \<le> 255" and Vb: "0 \<le> V" "V \<le> 255"
    unfolding C_def V_def by (rule u8_rat_bounds)+
  have a0: "0 < alpha" "alpha \<noteq> 0" using assms(1) by simp_all
  \<comment> \<open>\<open>1 - alpha\<close>\<close>
  define s where "s = fsub (Num 1) (Num alpha)"
  have y1: "\<bar>1 - alpha\<bar> \<le> 1" using assms a0 by simp
  note r1 = round32_error_simple [OF y1]
  have s_fin: "is_finite s" and s_val: "val s = val (round32 (1 - alpha))"
    unfolding s_def using fsub_val [of "Num 1" "Num alpha"] r1(1) by simp_all
  have e1: "\<bar>val s - (1 - alpha)\<bar> \<le> 2 / 16777216" unfolding s_val using r1(2) by simp
  have sb: "\<bar>val s\<bar> \<le> 1 + 2 / 16777216" using e1 y1 by linarith
  \<comment> \<open>\<open>c_overlay * (1 - alpha)\<close>\<close>
  define t where "t = fmul (Num V) s"
  have "\<bar>V * val s\<bar> = V * \<bar>val s\<bar>" using Vb by (simp add: abs_mult)
  also have "\<dots> \<le> 255 * (1 + 2 / 16777216)"
    using Vb sb by (intro mult_mono) simp_all
  also have "\<dots> \<le> 256" by simp
  finally have y2: "\<bar>V * val s\<bar> \<le> 256" .
  note r2 = round32_error_simple [OF y2]
  have t_fin: "is_finite t" and t_val: "val t = val (round32 (V * val s))"
    unfolding t_def using fmul_val [of "Num V" s] s_fin r2(1) by simp_all
  have e2: "\<bar>val t - V * val s\<bar> \<le> 257 / 16777216" unfolding t_val using r2(2) by simp
  have "\<bar>V * val s - V * (1 - alpha)\<bar> = V * \<bar>val s - (1 - alpha)\<bar>"
    using Vb by (simp add: abs_mult right_diff_distrib [symmetric])
  also have "\<dots> \<le> 255 * (2 / 16777216)" using Vb e1 by (intro mult_mono) simp_all
  finally have e2': "\<bar>V * val s - V * (1 - alpha)\<bar> \<le> 510 / 16777216" by simp
  have tb: "\<bar>val t\<bar> \<le> 257" using e2 y2 by linarith
  \<comment> \<open>\<open>c_final - c_overlay * (1 - alpha)\<close>\<close>
  define d where "d = fsub (Num C) t"
  have y3: "\<bar>C - val t\<bar> \<le> 512" using Cb tb by linarith
  note r3 = round32_error_simple [OF y3]
  have d_fin: "is_finite d" and d_val: "val d = val (round32 (C - val t))"
    unfolding d_def using fsub_val [of "Num C" t] t_fin r3(1) by simp_all
  have e3: "\<bar>val d - (C - val t)\<bar> \<le> 513 / 16777216" unfolding d_val using r3(2) by simp
  have db: "\<bar>val d\<bar> \<le> 513" using e3 y3 by linarith
  have ed: "\<bar>val d - (C - V * (1 - alpha))\<bar> \<le> 1280 / 16777216"
    using e3 e2 e2' by linarith
  \<comment> \<open>the division by \<open>alpha\<close>\<close>
  define X where "X = 1 / alpha"
  have Xb: "1 \<le> X" "X \<le> 512" using assms a0 by (simp_all add: X_def field_simps)
  have dv: "y / alpha = y * X" for y by (simp add: X_def)
  have "\<bar>val d * X\<bar> = \<bar>val d\<bar> * X" using Xb by (simp add: abs_mult)
  also have "\<dots> \<le> 513 * X" using db Xb by (intro mult_right_mono) simp_all
  finally have y4': "\<bar>val d * X\<bar> \<le> 513 * X" .
  then have y4: "\<bar>val d * X\<bar> \<le> 513 * 512" using Xb by linarith
  note r4 = round32_error_simple [OF y4]
  have q_fin: "is_finite (fdiv d (Num alpha))"
    and q_val: "val (fdiv d (Num alpha)) = val (round32 (val d * X))"
    using fdiv_val [OF d_fin a0(2)] r4(1) by (simp_all add: dv)
  define tiny :: rat where "tiny = 1 / 2 ^ 150"
  have tiny: "tiny \<le> 1 / 16777216" by (simp add: tiny_def)
  have "\<bar>val d * X\<bar> < 2 ^ 128 - 2 ^ 103" using y4 by simp
  from round32_error(2) [OF this]
  have "\<bar>val (round32 (val d * X)) - val d * X\<bar> \<le> \<bar>val d * X\<bar> / 16777216 + tiny"
    by (simp add: tiny_def)
  with y4' tiny Xb
  have e4: "\<bar>val (fdiv d (Num alpha)) - val d * X\<bar> \<le> 514 * X / 16777216"
    unfolding q_val by linarith
  have "\<bar>val d * X - (C - V * (1 - alpha)) * X\<bar> = \<bar>val d - (C - V * (1 - alpha))\<bar> * X"
    using Xb by (simp add: abs_mult left_diff_distrib [symmetric])
  also have "\<dots> \<le> (1280 / 16777216) * X"
    using ed Xb by (intro mult_right_mono) simp_all
  finally have e5: "\<bar>val d * X - (C - V * (1 - alpha)) * X\<bar> \<le> 1280 * X / 16777216"
    by simp
  from e4 e5 Xb have "\<bar>val (fdiv d (Num alpha)) - (C - V * (1 - alpha)) * X\<bar> \<le> X / 4096"
    by linarith
  then have fin: "\<bar>val (fdiv d (Num alpha)) - (C - V * (1 - alpha)) / alpha\<bar>
      \<le> (1 / 4096) / alpha" by (simp add: X_def)
  have eq: "Eq_value c (Num alpha) v = fdiv d (Num alpha)"
    by (simp add: Eq_value_def float_of_u8_uint d_def t_def s_def C_def V_def)
  show "is_finite (Eq_value c (Num alpha) v)" unfolding eq by (rule q_fin)
  show "\<bar>val (Eq_value c (Num alpha) v)
            - (of_int (uint c) - of_int (uint v) * (1 - alpha)) / alpha\<bar> \<le> (1 / 4096) / alpha"
    using fin unfolding eq C_def V_def .
qed

text \<open>
  The round trip for every \<^verbatim>\<open>alpha\<close> in (0, 1]: the conversion of a finite value to 8 bits,
  the error of the forward blend, and the distance of the recovered channel from the
  original.
\<close>

lemma uint_clamped_u8_finite:
  assumes "is_finite v"
  shows "uint (clamped_u8 v) = (if val v < 0 then 0 else if 255 < val v then 255 else \<lfloor>val v\<rfloor>)"
proof -
  have w: "uint (word_of_int \<lfloor>q\<rfloor> :: 8 word) = \<lfloor>q\<rfloor>" if "0 \<le> q" "q \<le> 255" for q :: rat
  proof -
    from that have "0 \<le> \<lfloor>q\<rfloor>" "\<lfloor>q\<rfloor> < 256" by (simp_all add: floor_less_iff)
    then show ?thesis by (simp add: uint_word_of_int)
  qed
  from assms consider q where "v = Num q" | "v = MinusZero"
    by (auto simp: is_finite_cases)
  then show ?thesis
  proof cases
    case 1
    then show ?thesis using w [of q] by (auto simp: clamped_u8_def)
  next
    case 2
    then show ?thesis by (simp add: clamped_u8_def)
  qed
qed

lemma round_with_error:
  "\<bar>of_int (round_with m x) - x\<bar> \<le> rounding_error m"
proof (cases m)
  case Truncate
  have "of_int \<lfloor>x\<rfloor> \<le> x" "x < of_int \<lfloor>x\<rfloor> + 1" by linarith+
  then have "\<bar>of_int \<lfloor>x\<rfloor> - x\<bar> \<le> 1" by linarith
  then show ?thesis using Truncate by (simp add: round_with_def rounding_error_def)
next
  case NearestEven
  then show ?thesis
    using round_half_even_close [of x] by (simp add: round_with_def rounding_error_def)
next
  case NearestAway
  have "of_int \<lfloor>x + 1 / 2\<rfloor> \<le> x + 1 / 2" "x + 1 / 2 < of_int \<lfloor>x + 1 / 2\<rfloor> + 1"
    by linarith+
  then have "\<bar>of_int \<lfloor>x + 1 / 2\<rfloor> - x\<bar> \<le> 1 / 2" by linarith
  then show ?thesis using NearestAway by (simp add: round_with_def rounding_error_def)
qed

lemma composite_channel_value:
  assumes "0 \<le> alpha" "alpha \<le> 1"
  shows "uint (composite_channel m c alpha v)
           = round_with m (of_int (uint c) * alpha + of_int (uint v) * (1 - alpha))"
proof -
  define x where "x = of_int (uint c) * alpha + of_int (uint v) * (1 - alpha)"
  have cb: "(0::rat) \<le> of_int (uint c)" "(of_int (uint c) :: rat) \<le> 255"
    and vb: "(0::rat) \<le> of_int (uint v)" "(of_int (uint v) :: rat) \<le> 255"
    by (rule u8_rat_bounds)+
  have x0: "0 \<le> x" unfolding x_def using cb vb assms by simp
  have "of_int (uint c) * alpha \<le> 255 * alpha"
    using cb assms by (intro mult_right_mono) simp_all
  moreover have "of_int (uint v) * (1 - alpha) \<le> 255 * (1 - alpha)"
    using vb assms by (intro mult_right_mono) simp_all
  ultimately have x1: "x \<le> 255" unfolding x_def by (simp add: algebra_simps)
  have mm: "max 0 (min 255 x) = x" using x0 x1 by simp
  note rc = round_with_close [OF x0 x1, of m]
  have uw: "uint (word_of_int (round_with m x) :: 8 word) = round_with m x"
    using rc(2,3) by (simp add: uint_word_of_int)
  show ?thesis
    unfolding composite_channel_def x_def [symmetric] mm by (rule uw)
qed

lemma composite_channel_error:
  assumes "0 \<le> alpha" "alpha \<le> 1"
  shows "\<bar>of_int (uint (composite_channel m c alpha v))
           - (of_int (uint c) * alpha + of_int (uint v) * (1 - alpha))\<bar> \<le> rounding_error m"
  unfolding composite_channel_value [OF assms] by (rule round_with_error)

lemma channel_round_trip_general:
  assumes "0 < alpha" "alpha \<le> 1"
  shows "near (tolerance m alpha)
           (clamped_u8 (Eq_value (composite_channel m c alpha v) (Num alpha) v)) c"
proof (cases "1 / 512 \<le> alpha")
  case False
  have re: "1 / 2 \<le> rounding_error m" by (cases m) (simp_all add: rounding_error_def)
  have "255 * alpha \<le> 255 * (1 / 512)" using False by simp
  also have "\<dots> \<le> rounding_error m + 1 / 4096" using re by simp
  finally have "255 \<le> (rounding_error m + 1 / 4096) / alpha"
    using assms(1) by (simp add: field_simps)
  then have "(255::int) \<le> tolerance m alpha"
    unfolding tolerance_def by (simp add: le_ceiling_iff)
  moreover have "\<bar>uint a - uint c\<bar> \<le> 255" for a :: "8 word"
    using uint_u8_bounds [of a] uint_u8_bounds [of c] by linarith
  ultimately show ?thesis unfolding near_def by (meson order_trans)
next
  case True
  define F where "F = composite_channel m c alpha v"
  define Ci where "Ci = uint c"
  define C :: rat where "C = of_int Ci"
  define V :: rat where "V = of_int (uint v)"
  define B where "B = (rounding_error m + 1 / 4096) / alpha"
  define k where "k = val (Eq_value F (Num alpha) v)"
  have Cb: "0 \<le> Ci" "Ci \<le> 255" unfolding Ci_def by (rule uint_u8_bounds)+
  note ev = Eq_value_error [OF True assms(2), of F v]
  have fe: "\<bar>of_int (uint F) - (C * alpha + V * (1 - alpha))\<bar> \<le> rounding_error m"
    unfolding F_def C_def Ci_def V_def
    using composite_channel_error [of alpha m c v] assms by simp
  have "(of_int (uint F) - V * (1 - alpha)) / alpha - C
          = (of_int (uint F) - (C * alpha + V * (1 - alpha))) / alpha"
    using assms(1) by (simp add: field_simps)
  then have "\<bar>(of_int (uint F) - V * (1 - alpha)) / alpha - C\<bar>
          = \<bar>of_int (uint F) - (C * alpha + V * (1 - alpha))\<bar> / alpha"
    using assms(1) by (simp add: abs_divide)
  also have "\<dots> \<le> rounding_error m / alpha"
    using fe assms(1) by (intro divide_right_mono) simp_all
  finally have q: "\<bar>(of_int (uint F) - V * (1 - alpha)) / alpha - C\<bar> \<le> rounding_error m / alpha" .
  have Bs: "B = rounding_error m / alpha + (1 / 4096) / alpha"
    by (simp add: B_def add_divide_distrib)
  have "\<bar>k - C\<bar> \<le> \<bar>k - (of_int (uint F) - V * (1 - alpha)) / alpha\<bar>
                       + \<bar>(of_int (uint F) - V * (1 - alpha)) / alpha - C\<bar>"
    by linarith
  also have "\<dots> \<le> (1 / 4096) / alpha + rounding_error m / alpha"
    using q ev(2) unfolding k_def V_def by (intro add_mono)
  also have "\<dots> = B" by (simp add: Bs)
  finally have kb: "\<bar>k - C\<bar> \<le> B" .
  have u: "uint (clamped_u8 (Eq_value F (Num alpha) v))
             = (if k < 0 then 0 else if 255 < k then 255 else \<lfloor>k\<rfloor>)"
    unfolding k_def by (rule uint_clamped_u8_finite [OF ev(1)])
  have "\<bar>(if k < 0 then 0 else if 255 < k then 255 else \<lfloor>k\<rfloor>) - Ci\<bar> \<le> \<lceil>B\<rceil>"
  proof -
    consider "k < 0" | "255 < k" | "0 \<le> k" "k \<le> 255" by linarith
    then show ?thesis
    proof cases
      case 1
      with kb have "of_int Ci \<le> B" unfolding C_def by linarith
      then have "Ci \<le> \<lceil>B\<rceil>" by (simp add: le_ceiling_iff)
      with 1 Cb show ?thesis by simp
    next
      case 2
      with kb have "of_int (255 - Ci) \<le> B" unfolding C_def by simp
      then have "255 - Ci \<le> \<lceil>B\<rceil>" by (simp only: le_ceiling_iff)
      with 2 Cb show ?thesis by simp
    next
      case 3
      have fl: "of_int \<lfloor>k\<rfloor> \<le> k" "k < of_int \<lfloor>k\<rfloor> + 1" by linarith+
      have "of_int \<lfloor>k\<rfloor> - of_int Ci \<le> B" using fl kb unfolding C_def by linarith
      then have "of_int (\<lfloor>k\<rfloor> - Ci) \<le> B" by simp
      then have up: "\<lfloor>k\<rfloor> - Ci \<le> \<lceil>B\<rceil>" by (simp only: le_ceiling_iff)
      have "of_int Ci - of_int \<lfloor>k\<rfloor> - 1 < B" using fl kb unfolding C_def by linarith
      then have "of_int (Ci - \<lfloor>k\<rfloor> - 1) < B" by simp
      then have "Ci - \<lfloor>k\<rfloor> - 1 < \<lceil>B\<rceil>" by (simp only: less_ceiling_iff)
      with up 3 show ?thesis by simp
    qed
  qed
  then show ?thesis
    unfolding near_def u F_def [symmetric] tolerance_def B_def Ci_def .
qed

text \<open>
  \<^verbatim>\<open>alpha\<close> a multiple \<open>p / 2 ^ k\<close> of a power of two down to \<open>1 / 128\<close>: the numerator of
  \<^verbatim>\<open>Eq\<close> is exact, and the rounding of the quotient of two small integers does not move
  it across an integer, so the integer part of the value of \<^verbatim>\<open>Eq\<close> is that of the exact
  quotient.
\<close>

lemma round32_floor_ratio:
  assumes "\<bar>D\<bar> \<le> 32640" "0 < p" "p \<le> 128"
  shows "is_finite (round32 (of_int D / of_int p))"
    and "\<lfloor>val (round32 (of_int D / of_int p))\<rfloor> = D div p"
proof -
  define y :: rat where "y = of_int D / of_int p"
  define n where "n = D div p"
  define s where "s = D mod p"
  have P: "(0::rat) < of_int p" "(1::rat) \<le> of_int p" "(of_int p :: rat) \<le> 128"
    using assms(2,3) by simp_all
  have D: "D = n * p + s" by (simp add: n_def s_def)
  have sb: "0 \<le> s" "s < p" using assms(2) by (simp_all add: s_def)
  have yn: "y = of_int n + of_int s / of_int p"
    unfolding y_def D using P(1) by (simp add: field_simps)
  have "\<bar>of_int D :: rat\<bar> \<le> 32640" using assms(1) by (simp only: of_int_abs [symmetric] of_int_le_numeral_iff)
  moreover have "\<bar>y\<bar> = \<bar>of_int D\<bar> / of_int p" using P(1) by (simp add: y_def)
  moreover have "\<bar>of_int D :: rat\<bar> / of_int p \<le> \<bar>of_int D\<bar> / 1"
    using P(2) by (intro divide_left_mono) simp_all
  ultimately have yb: "\<bar>y\<bar> \<le> 32640" by simp
  note re = round32_error_simple [OF yb, simplified]
  show "is_finite (round32 (of_int D / of_int p))" using re(1) by (simp add: y_def)
  have "\<lfloor>val (round32 y)\<rfloor> = n"
  proof (cases "s = 0")
    case True
    then have y: "y = of_int n" by (simp add: yn)
    have "\<bar>n\<bar> \<le> 32640"
    proof -
      have "\<bar>(of_int n :: rat)\<bar> \<le> 32640" using yb unfolding y .
      then show ?thesis by (simp only: of_int_abs [symmetric] of_int_le_numeral_iff)
    qed
    then have "\<bar>n\<bar> < 2 ^ 24" by simp
    from round32_int [OF this] show ?thesis by (simp add: y)
  next
    case False
    with sb have s1: "1 \<le> s" "s \<le> p - 1" by simp_all
    then have "(1::rat) \<le> of_int s" "(of_int s :: rat) \<le> of_int (p - 1)"
      by (simp_all only: of_int_1_le_iff of_int_le_iff)
    then have "(1::rat) \<le> of_int s" "(of_int s :: rat) \<le> of_int p - 1"
      by simp_all
    then have "1 / of_int p \<le> (of_int s :: rat) / of_int p"
      "(of_int s :: rat) / of_int p \<le> (of_int p - 1) / of_int p"
      using P(1) by (simp_all add: divide_right_mono)
    moreover have "((of_int p :: rat) - 1) / of_int p = 1 - 1 / of_int p"
      using P(1) by (simp add: field_simps)
    moreover have "(1::rat) / 128 \<le> 1 / of_int p"
      using P by (intro divide_left_mono) simp_all
    ultimately have fr: "(1::rat) / 128 \<le> y - of_int n" "y - of_int n \<le> 1 - 1 / 128"
      unfolding yn by linarith+
    have "\<bar>val (round32 y) - y\<bar> \<le> 32641 / 16777216" using re(2) by simp
    with fr have "of_int n \<le> val (round32 y)" "val (round32 y) < of_int n + 1"
      by linarith+
    then show ?thesis by (simp add: floor_unique)
  qed
  then show "\<lfloor>val (round32 (of_int D / of_int p))\<rfloor> = D div p"
    by (simp add: y_def n_def)
qed


lemma Eq_value_dyadic:
  assumes "k \<le> 7" "0 < p" "p \<le> 2 ^ k"
  shows "is_finite (Eq_value c (Num (of_int p / 2 ^ k)) v)"
    and "\<lfloor>val (Eq_value c (Num (of_int p / 2 ^ k)) v)\<rfloor>
           = (2 ^ k * uint c - (2 ^ k - p) * uint v) div p"
proof -
  define C where "C = uint c"
  define V where "V = uint v"
  define K :: int where "K = 2 ^ k"
  define u :: rat where "u = 2 powi (- int k)"
  have Cb: "0 \<le> C" "C \<le> 255" and Vb: "0 \<le> V" "V \<le> 255"
    by (simp_all add: C_def V_def uint_u8_bounds)
  have "(2::int) ^ k \<le> 2 ^ 7" using assms(1) by (intro power_increasing) simp_all
  then have Kb: "1 \<le> K" "K \<le> 128" by (simp_all add: K_def)
  have pb: "0 < p" "p \<le> K" "p \<le> 128" using assms(2,3) Kb by (simp_all add: K_def)
  have kr: "- 149 \<le> - int k" "- int k \<le> 104" using assms(1) by simp_all
  have u0: "0 < u" by (simp add: u_def)
  have al: "(of_int p :: rat) / 2 ^ k = of_int p * u"
    by (simp add: u_def power_int_minus field_simps)
  have Kinv: "(of_int K :: rat) * u = 1"
    by (simp add: K_def u_def power_int_minus)
  have dy: "round32 (of_int n * u) = Num (of_int n * u)" if "\<bar>n\<bar> < 2 ^ 24" for n
    unfolding u_def by (rule round32_dyadic [OF that kr])
  \<comment> \<open>\<open>1 - alpha\<close>\<close>
  have e1: "(1::rat) - of_int p * u = of_int (K - p) * u"
    using Kinv by (simp add: algebra_simps)
  have s1: "fsub (Num 1) (Num (of_int p * u)) = Num (of_int (K - p) * u)"
    using fsub_exact [of 1 "of_int p * u"] dy [of "K - p"] Kb pb unfolding e1 by simp
  \<comment> \<open>\<open>c_overlay * (1 - alpha)\<close>\<close>
  have vk: "0 \<le> V * (K - p)" "V * (K - p) \<le> 255 * 127"
  proof -
    show "0 \<le> V * (K - p)" using Vb pb by simp
    show "V * (K - p) \<le> 255 * 127" using Vb Kb pb by (intro mult_mono) simp_all
  qed
  have e2: "(of_int V :: rat) * (of_int (K - p) * u) = of_int (V * (K - p)) * u" by simp
  have nn: "(0::rat) \<le> of_int V" "(0::rat) \<le> of_int (K - p) * u"
    using Vb pb u0 by simp_all
  have s2: "fmul (Num (of_int V)) (Num (of_int (K - p) * u)) = Num (of_int (V * (K - p)) * u)"
    unfolding e2 [symmetric]
    using nn dy [of "V * (K - p)"] vk unfolding e2 [symmetric]
    by (intro fmul_exact) simp_all
  \<comment> \<open>\<open>c_final - c_overlay * (1 - alpha)\<close>\<close>
  define D where "D = C * K - V * (K - p)"
  have ck: "0 \<le> C * K" "C * K \<le> 255 * 128"
  proof -
    show "0 \<le> C * K" using Cb Kb by simp
    show "C * K \<le> 255 * 128" using Cb Kb by (intro mult_mono) simp_all
  qed
  have Db: "\<bar>D\<bar> \<le> 32640" using ck vk by (simp add: D_def)
  then have Db': "\<bar>D\<bar> < 2 ^ 24" by simp
  have e3: "(of_int C :: rat) - of_int (V * (K - p)) * u = of_int D * u"
  proof -
    have "(of_int C :: rat) = of_int C * (of_int K * u)" by (simp only: Kinv)
    then show ?thesis by (simp add: D_def algebra_simps)
  qed
  have s3: "fsub (Num (of_int C)) (Num (of_int (V * (K - p)) * u)) = Num (of_int D * u)"
    using fsub_exact [of "of_int C" "of_int (V * (K - p)) * u"] dy [OF Db']
    unfolding e3 by simp
  \<comment> \<open>the division by \<open>alpha\<close>\<close>
  have e4: "(of_int D * u) / (of_int p * u) = (of_int D :: rat) / of_int p"
    using u0 by simp
  have pu: "(of_int p :: rat) * u \<noteq> 0" using pb(1) u0 by simp
  note fr = round32_floor_ratio [OF Db pb(1,3)]
  have fn: "is_finite (Num (of_int D * u))" by simp
  have vn: "val (Num (of_int D * u)) / (of_int p * u) = of_int D / of_int p"
    using e4 by simp
  note dv = fdiv_val [OF fn pu, unfolded vn]
  have ev: "Eq_value c (Num (of_int p / 2 ^ k)) v = fdiv (Num (of_int D * u)) (Num (of_int p * u))"
    unfolding Eq_value_def float_of_u8_uint al C_def [symmetric] V_def [symmetric] s1 s2 s3 ..
  have Dd: "D = 2 ^ k * uint c - (2 ^ k - p) * uint v"
    by (simp add: D_def C_def V_def K_def mult.commute)
  show "is_finite (Eq_value c (Num (of_int p / 2 ^ k)) v)"
    unfolding ev using dv(2) fr(1) by simp
  have "\<lfloor>val (Eq_value c (Num (of_int p / 2 ^ k)) v)\<rfloor> = D div p"
    unfolding ev dv(1) fr(2) ..
  then show "\<lfloor>val (Eq_value c (Num (of_int p / 2 ^ k)) v)\<rfloor>
           = (2 ^ k * uint c - (2 ^ k - p) * uint v) div p"
    unfolding Dd .
qed

lemma uint_clamped_u8_floor:
  assumes "is_finite v"
  shows "uint (clamped_u8 v) = max 0 (min 255 \<lfloor>val v\<rfloor>)"
proof -
  have "val v < 0 \<longleftrightarrow> \<lfloor>val v\<rfloor> < 0" by (simp add: floor_less_iff)
  moreover have "255 < val v \<Longrightarrow> 255 \<le> \<lfloor>val v\<rfloor>" by (simp add: le_floor_iff)
  moreover have "\<not> 255 < val v \<Longrightarrow> \<lfloor>val v\<rfloor> \<le> 255" by (simp add: floor_le_iff)
  ultimately show ?thesis
    unfolding uint_clamped_u8_finite [OF assms] by (auto simp: max_def min_def)
qed

text \<open>
  The forward blend for such an \<^verbatim>\<open>alpha\<close> rounds a multiple of \<open>1 / 2 ^ k\<close>, and the
  recovered channel is the clamped integer part of the exact quotient.
\<close>

lemma round_with_grid_error:
  "\<bar>of_int (round_with m (of_int j / 2 ^ k)) - of_int j / 2 ^ k\<bar> \<le> grid_error m k"
proof (cases "k = 0")
  case True
  have "\<lfloor>(of_int j :: rat) + 1 / 2\<rfloor> = j" by (simp add: floor_unique)
  then show ?thesis using True
    by (cases m) (simp_all add: round_with_def grid_error_def round_half_even_of_int)
next
  case False
  define K :: int where "K = 2 ^ k"
  define x :: rat where "x = of_int j / 2 ^ k"
  have K0: "0 < K" by (simp add: K_def)
  have Kr: "(of_int K :: rat) = 2 ^ k" by (simp add: K_def)
  show ?thesis
  proof (cases m)
    case Truncate
    have x: "x = of_int j / of_int K" by (simp add: x_def Kr)
    have fl: "\<lfloor>x\<rfloor> = j div K" unfolding x by (rule floor_divide_of_int_eq)
    have "j = (j div K) * K + j mod K" by simp
    then have "(of_int j :: rat) = of_int (j div K) * of_int K + of_int (j mod K)"
      by (metis of_int_add of_int_mult)
    then have xd: "x = of_int (j div K) + of_int (j mod K) / of_int K"
      unfolding x using K0 by (simp add: field_simps)
    have "0 \<le> j mod K" "j mod K \<le> K - 1" using K0 by simp_all
    then have "(0::rat) \<le> of_int (j mod K)" "(of_int (j mod K) :: rat) \<le> of_int (K - 1)"
      by (simp_all only: of_int_0_le_iff of_int_le_iff)
    then have "(0::rat) \<le> of_int (j mod K) / of_int K"
      "(of_int (j mod K) :: rat) / of_int K \<le> of_int (K - 1) / of_int K"
      using K0 by (simp_all add: divide_right_mono)
    moreover have "(of_int (K - 1) :: rat) / of_int K = 1 - 1 / 2 ^ k"
      using K0 by (simp add: Kr field_simps)
    ultimately have "\<bar>of_int \<lfloor>x\<rfloor> - x\<bar> \<le> 1 - 1 / 2 ^ k"
      unfolding fl using xd by linarith
    then show ?thesis using Truncate
      by (simp add: round_with_def grid_error_def x_def)
  next
    case NearestEven
    then show ?thesis using False round_with_error [of m "of_int j / 2 ^ k"]
      by (simp add: grid_error_def rounding_error_def)
  next
    case NearestAway
    then show ?thesis using False round_with_error [of m "of_int j / 2 ^ k"]
      by (simp add: grid_error_def rounding_error_def)
  qed
qed

lemma floor_abs_le:
  fixes z :: rat
  assumes "\<bar>z\<bar> \<le> B"
  shows "\<bar>\<lfloor>z\<rfloor>\<bar> \<le> \<lceil>B\<rceil>"
proof -
  have "of_int \<lfloor>z\<rfloor> \<le> z" by simp
  with assms have "of_int \<lfloor>z\<rfloor> \<le> B" by linarith
  then have up: "\<lfloor>z\<rfloor> \<le> \<lceil>B\<rceil>" by (simp only: le_ceiling_iff)
  have "B \<le> of_int \<lceil>B\<rceil>" by simp
  with assms have "of_int (- \<lceil>B\<rceil>) \<le> z" by simp linarith
  then have "- \<lceil>B\<rceil> \<le> \<lfloor>z\<rfloor>" by (simp only: le_floor_iff)
  with up show ?thesis by linarith
qed

lemma channel_round_trip_dyadic:
  assumes "k \<le> 7" "0 < p" "p \<le> 2 ^ k"
  shows "near (grid_tolerance m k (of_int p / 2 ^ k))
           (clamped_u8 (Eq_value (composite_channel m c (of_int p / 2 ^ k) v)
              (Num (of_int p / 2 ^ k)) v)) c"
proof -
  define alpha :: rat where "alpha = of_int p / 2 ^ k"
  define K :: int where "K = 2 ^ k"
  define C where "C = uint c"
  define V where "V = uint v"
  define F where "F = uint (composite_channel m c alpha v)"
  define x :: rat where "x = of_int C * alpha + of_int V * (1 - alpha)"
  define D where "D = K * F - (K - p) * V"
  define z where "z = (of_int F - x) / alpha"
  have K0: "0 < K" by (simp add: K_def)
  have Kr: "(of_int K :: rat) = 2 ^ k" by (simp add: K_def)
  have P: "(0::rat) < of_int p" using assms(2) by simp
  have a0: "0 < alpha" unfolding alpha_def using P by simp
  have "(of_int p :: rat) \<le> of_int K" using assms(3) unfolding K_def by (simp only: of_int_le_iff)
  then have a1: "alpha \<le> 1" unfolding alpha_def Kr [symmetric] using K0 by (simp add: divide_le_eq_1)
  have aK: "alpha * of_int K = of_int p" unfolding alpha_def Kr by simp
  have Cb: "0 \<le> C" "C \<le> 255" unfolding C_def by (rule uint_u8_bounds)+
  have xj: "x = of_int (p * C + (K - p) * V) / 2 ^ k"
    unfolding x_def alpha_def Kr [symmetric] using K0 by (simp add: field_simps)
  have Fv: "F = round_with m x"
    unfolding F_def x_def C_def V_def using a0 a1 by (intro composite_channel_value) simp_all
  have "\<bar>of_int F - x\<bar> \<le> grid_error m k"
    unfolding Fv xj by (rule round_with_grid_error)
  then have "\<bar>of_int F - x\<bar> / alpha \<le> grid_error m k / alpha"
    using a0 by (intro divide_right_mono) simp_all
  then have zb: "\<bar>z\<bar> \<le> grid_error m k / alpha"
    unfolding z_def using a0 by (simp add: abs_divide)
  have "(of_int D :: rat) = of_int K * of_int F - (of_int K - of_int p) * of_int V"
    by (simp add: D_def)
  also have "\<dots> = of_int K * (of_int F - x) + of_int p * of_int C"
  proof -
    have "of_int K * x = of_int C * (alpha * of_int K) + of_int V * (of_int K - alpha * of_int K)"
      by (simp add: x_def algebra_simps)
    then have "of_int K * x = of_int C * of_int p + of_int V * (of_int K - of_int p)"
      unfolding aK .
    then show ?thesis by (simp add: algebra_simps)
  qed
  also have "\<dots> = of_int p * (z + of_int C)"
    unfolding z_def aK [symmetric] using a0 by (simp add: field_simps)
  finally have "(of_int D :: rat) / of_int p = of_int C + z" using P by simp
  then have "\<lfloor>(of_int D :: rat) / of_int p\<rfloor> = C + \<lfloor>z\<rfloor>" by simp
  then have dd: "D div p = C + \<lfloor>z\<rfloor>" by (simp only: floor_divide_of_int_eq)
  note ed = Eq_value_dyadic [OF assms, of "composite_channel m c alpha v" v,
      folded alpha_def K_def F_def V_def]
  have u: "uint (clamped_u8 (Eq_value (composite_channel m c alpha v) (Num alpha) v))
             = max 0 (min 255 (C + \<lfloor>z\<rfloor>))"
    unfolding uint_clamped_u8_floor [OF ed(1)] ed(2) D_def [symmetric] dd ..
  have "\<bar>max 0 (min 255 (C + \<lfloor>z\<rfloor>)) - C\<bar> \<le> \<bar>\<lfloor>z\<rfloor>\<bar>" using Cb by linarith
  also have "\<dots> \<le> \<lceil>grid_error m k / alpha\<rceil>" by (rule floor_abs_le [OF zb])
  finally show ?thesis
    unfolding near_def grid_tolerance_def alpha_def [symmetric] u C_def [symmetric] .
qed

text \<open>
  The round trip of a pixel: the tolerance is 1 for a blend rounded to nearest and
  \<^verbatim>\<open>alpha\<close> from \<open>1 / 2 + 2 ^ - 12\<close>, and a positive multiple of \<open>1 / 2 ^ k\<close> that is at
  most 1 has a numerator from 1 to \<open>2 ^ k\<close>.
\<close>

lemma tolerance_nearest:
  assumes "m \<noteq> Truncate" "2049 / 4096 \<le> alpha" "alpha \<le> 1"
  shows "tolerance m alpha = 1"
proof -
  have a0: "0 < alpha" using assms(2) by linarith
  have re: "rounding_error m = 1 / 2" using assms(1) by (cases m) (simp_all add: rounding_error_def)
  have "0 < (2049 / 4096) / alpha" using a0 by simp
  moreover have "(2049 / 4096) / alpha \<le> 1" using a0 assms(2) by (simp add: field_simps)
  ultimately have "\<lceil>(2049 / 4096) / alpha\<rceil> = 1" by (simp add: ceiling_eq_iff)
  then show ?thesis by (simp add: tolerance_def re)
qed

lemma dyadic_bounds:
  fixes alpha :: rat
  assumes "0 < alpha" "alpha \<le> 1" "alpha = of_int p / 2 ^ k"
  shows "0 < p" "p \<le> 2 ^ k"
proof -
  have "(0::rat) < of_int p" using assms(1) unfolding assms(3) by (simp add: zero_less_divide_iff)
  then show "0 < p" by simp
  have "(of_int p :: rat) \<le> 2 ^ k" using assms(2) unfolding assms(3) by (simp add: divide_le_eq_1)
  then have "(of_int p :: rat) \<le> of_int (2 ^ k)" by simp
  then show "p \<le> 2 ^ k" by (simp only: of_int_le_iff)
qed

lemma restore_round_trip_general:
  assumes "0 < alpha" "alpha \<le> 1"
  shows "\<exists>q. restore (composite_pixel m p alpha overlay) (Num alpha)
                (uint (r overlay)) (uint (g overlay)) (uint (b overlay)) = Inr q
             \<and> pixel_near (tolerance m alpha) q p
             \<and> (\<forall>k n. k \<le> 7 \<and> alpha = of_int n / 2 ^ k \<longrightarrow> pixel_near (grid_tolerance m k alpha) q p)"
proof -
  have "alpha \<le> 2 ^ 128 - 2 ^ 104" using assms(2) by (rule order_trans) simp
  then have fin: "finite_nonzero (Num alpha)"
    using assms(1) by (simp add: finite_nonzero_def)
  note nn = Eq_value_not_NaN [OF fin]
  define q where "q = \<lparr>r = clamped_u8 (Eq_value (composite_channel m (r p) alpha (r overlay)) (Num alpha) (r overlay)),
                        g = clamped_u8 (Eq_value (composite_channel m (g p) alpha (g overlay)) (Num alpha) (g overlay)),
                        b = clamped_u8 (Eq_value (composite_channel m (b p) alpha (b overlay)) (Num alpha) (b overlay))\<rparr>"
  have run: "restore (composite_pixel m p alpha overlay) (Num alpha)
                (uint (r overlay)) (uint (g overlay)) (uint (b overlay)) = Inr q"
    by (simp add: restore_eq u8_of_int_uint composite_pixel_def nn q_def)
  have gen: "pixel_near (tolerance m alpha) q p"
    unfolding pixel_near_def q_def
    using channel_round_trip_general [OF assms, of m "r p" "r overlay"]
      channel_round_trip_general [OF assms, of m "g p" "g overlay"]
      channel_round_trip_general [OF assms, of m "b p" "b overlay"]
    by simp
  have dy: "pixel_near (grid_tolerance m k alpha) q p"
    if "k \<le> 7" "alpha = of_int n / 2 ^ k" for k n
  proof -
    note b = dyadic_bounds [OF assms that(2)]
    show ?thesis
      unfolding pixel_near_def q_def that(2)
      using channel_round_trip_dyadic [OF that(1) b, of m "r p" "r overlay"]
        channel_round_trip_dyadic [OF that(1) b, of m "g p" "g overlay"]
        channel_round_trip_dyadic [OF that(1) b, of m "b p" "b overlay"]
      by simp
  qed
  from run gen dy show ?thesis by blast
qed

section \<open>The claims about the pass\<close>

text \<open>
  C1. For a decoded composite and a decoded mask of the same dimensions: at every
  coordinate whose mask pixel is not pure black, the pixel of the recovered buffer has, in
  each channel on its own, the value \<open>(final - overlay * (1 - alpha)) / alpha\<close> computed in
  single precision, clamped and narrowed to 8 bits: 0 when the value is below 0, 255 when
  it is above 255, its integer part otherwise. The pass returns for every finite non-zero
  \<^verbatim>\<open>alpha\<close>; whenever it returns, no value was a NaN.
\<close>

theorem masked_pixel_restored:
  assumes "decoded img" "decoded msk" "same_shape msk img"
  shows "(finite_nonzero alpha \<longrightarrow> (\<exists>rec. unblend img msk alpha vr vg vb = Inr rec))
       \<and> (\<forall>rec x y m f. unblend img msk alpha vr vg vb = Inr rec
            \<and> x < nat (width img) \<and> y < nat (height img)
            \<and> get_pixel msk (of_nat x) (of_nat y) = Inr m \<and> m \<noteq> BLACK
            \<and> get_pixel img (of_nat x) (of_nat y) = Inr f
            \<longrightarrow> Eq_value (r f) alpha (u8_of_int vr) \<noteq> NaN
              \<and> Eq_value (g f) alpha (u8_of_int vg) \<noteq> NaN
              \<and> Eq_value (b f) alpha (u8_of_int vb) \<noteq> NaN
              \<and> get_pixel rec (of_nat x) (of_nat y)
                  = Inr \<lparr>r = clamped_u8 (Eq_value (r f) alpha (u8_of_int vr)),
                         g = clamped_u8 (Eq_value (g f) alpha (u8_of_int vg)),
                         b = clamped_u8 (Eq_value (b f) alpha (u8_of_int vb))\<rparr>)"
proof (intro conjI allI impI)
  assume "finite_nonzero alpha"
  then show "\<exists>rec. unblend img msk alpha vr vg vb = Inr rec"
    by (rule unblend_returns [OF assms])
next
  fix rec x y m f
  assume a: "unblend img msk alpha vr vg vb = Inr rec
            \<and> x < nat (width img) \<and> y < nat (height img)
            \<and> get_pixel msk (of_nat x) (of_nat y) = Inr m \<and> m \<noteq> BLACK
            \<and> get_pixel img (of_nat x) (of_nat y) = Inr f"
  then have "get_pixel rec (of_nat x) (of_nat y) = restore f alpha vr vg vb"
    using unblend_at [OF assms, of alpha vr vg vb rec x y]
    by (auto simp: recovered_pixel_def)
  moreover have "\<not> isl (get_pixel rec (of_nat x) (of_nat y))"
    using a unblend_at [OF assms, of alpha vr vg vb rec x y]
      get_pixel_in_grid [OF unblend_result(2) [OF assms, of alpha vr vg vb rec], of "(x, y)"]
      same_shape_decoded(2) [OF assms(1) unblend_result(1) [OF assms, of alpha vr vg vb rec], of "(x, y)"]
    by (simp add: in_grid_def)
  ultimately have ok: "\<not> isl (restore f alpha vr vg vb)"
    and eq: "get_pixel rec (of_nat x) (of_nat y) = restore f alpha vr vg vb" by simp_all
  from ok show "Eq_value (r f) alpha (u8_of_int vr) \<noteq> NaN"
    "Eq_value (g f) alpha (u8_of_int vg) \<noteq> NaN" "Eq_value (b f) alpha (u8_of_int vb) \<noteq> NaN"
    by (auto simp: restore_eq split: if_splits)
  with eq show "get_pixel rec (of_nat x) (of_nat y)
                  = Inr \<lparr>r = clamped_u8 (Eq_value (r f) alpha (u8_of_int vr)),
                         g = clamped_u8 (Eq_value (g f) alpha (u8_of_int vg)),
                         b = clamped_u8 (Eq_value (b f) alpha (u8_of_int vb))\<rparr>"
    by (simp add: restore_eq)
qed

text \<open>
  The example composite under the example mask, with \<^verbatim>\<open>alpha\<close> 0.5 and a white overlay:
  the pixel (100,150,250) becomes (0,45,245) and the pixel (10,128,255) becomes (0,1,255).
\<close>

theorem masked_pixel_restored_witness:
  "decoded photo \<and> decoded stamp \<and> same_shape stamp photo \<and> finite_nonzero (Num (1 / 2))
   \<and> (\<exists>rec. unblend photo stamp (Num (1 / 2)) 255 255 255 = Inr rec
         \<and> get_pixel rec 1 0 = Inr \<lparr>r = 0, g = 45, b = 245\<rparr>
         \<and> get_pixel rec 0 1 = Inr \<lparr>r = 0, g = 1, b = 255\<rparr>)"
proof -
  note th = masked_pixel_restored [OF examples_decoded, of "Num (1 / 2)" 255 255 255]
  have fin: "finite_nonzero (Num (1 / 2))" by (simp add: finite_nonzero_def)
  with th obtain rec where rec: "unblend photo stamp (Num (1 / 2)) 255 255 255 = Inr rec"
    by blast
  have "get_pixel rec 1 0 = Inr \<lparr>r = 0, g = 45, b = 245\<rparr>"
    using th [THEN conjunct2, rule_format, of rec 1 0 "\<lparr>r = 0, g = 0, b = 1\<rparr>"
        "\<lparr>r = 100, g = 150, b = 250\<rparr>"] rec
    by (simp add: get_pixel_photo get_pixel_stamp not_black examples_dims Eq_value_half
        u8_of_int_def clamped_u8_def)
  moreover have "get_pixel rec 0 1 = Inr \<lparr>r = 0, g = 1, b = 255\<rparr>"
    using th [THEN conjunct2, rule_format, of rec 0 1 WHITE "\<lparr>r = 10, g = 128, b = 255\<rparr>"] rec
    by (simp add: get_pixel_photo get_pixel_stamp not_black examples_dims Eq_value_half
        u8_of_int_def clamped_u8_def)
  ultimately show ?thesis using rec fin examples_decoded by blast
qed

text \<open>
  C2. For a decoded composite and a decoded mask of the same dimensions: at every
  coordinate whose mask pixel is pure black, the recovered buffer of a pass that returns
  holds the composite's pixel; and under a mask that is black at every coordinate the pass
  returns the composite itself.
\<close>

theorem black_mask_keeps_pixel:
  assumes "decoded img" "decoded msk" "same_shape msk img"
  shows "(\<forall>rec x y. unblend img msk alpha vr vg vb = Inr rec
            \<and> x < nat (width img) \<and> y < nat (height img)
            \<and> get_pixel msk (of_nat x) (of_nat y) = Inr BLACK
            \<longrightarrow> get_pixel rec (of_nat x) (of_nat y) = get_pixel img (of_nat x) (of_nat y))
       \<and> ((\<forall>x y. x < nat (width img) \<and> y < nat (height img)
              \<longrightarrow> get_pixel msk (of_nat x) (of_nat y) = Inr BLACK)
            \<longrightarrow> unblend img msk alpha vr vg vb = Inr img)"
proof (intro conjI allI impI)
  fix rec x y
  assume a: "unblend img msk alpha vr vg vb = Inr rec
            \<and> x < nat (width img) \<and> y < nat (height img)
            \<and> get_pixel msk (of_nat x) (of_nat y) = Inr BLACK"
  then obtain m f where "get_pixel msk (of_nat x) (of_nat y) = Inr m"
    "get_pixel img (of_nat x) (of_nat y) = Inr f"
    "get_pixel rec (of_nat x) (of_nat y) = recovered_pixel m f alpha vr vg vb"
    using unblend_at [OF assms, of alpha vr vg vb rec x y] by blast
  with a show "get_pixel rec (of_nat x) (of_nat y) = get_pixel img (of_nat x) (of_nat y)"
    by (simp add: recovered_pixel_def)
next
  assume "\<forall>x y. x < nat (width img) \<and> y < nat (height img)
              \<longrightarrow> get_pixel msk (of_nat x) (of_nat y) = Inr BLACK"
  then show "unblend img msk alpha vr vg vb = Inr img"
    by (intro unblend_all_black [OF assms]) blast
qed


text \<open>
  The black corner (1,1) of the example mask keeps the composite's pixel (7,8,9), and the
  2 x 2 grid under an all-black mask comes back unchanged.
\<close>

theorem black_mask_keeps_pixel_witness:
  "decoded photo \<and> decoded stamp \<and> same_shape stamp photo
   \<and> get_pixel stamp 1 1 = Inr BLACK
   \<and> (\<exists>rec. unblend photo stamp (Num (1 / 2)) 255 255 255 = Inr rec
         \<and> get_pixel rec 1 1 = Inr \<lparr>r = 7, g = 8, b = 9\<rparr>)
   \<and> decoded grid \<and> unblend grid (grid\<lparr>pixels := [BLACK, BLACK, BLACK, BLACK]\<rparr>)
         (Num (1 / 2)) 255 255 255 = Inr grid"
proof -
  have fin: "finite_nonzero (Num (1 / 2))" by (simp add: finite_nonzero_def)
  from unblend_returns [OF examples_decoded this]
  obtain rec where rec: "unblend photo stamp (Num (1 / 2)) 255 255 255 = Inr rec" by blast
  have "get_pixel rec 1 1 = Inr \<lparr>r = 7, g = 8, b = 9\<rparr>"
    using black_mask_keeps_pixel [OF examples_decoded, of "Num (1 / 2)" 255 255 255,
        THEN conjunct1, rule_format, of rec 1 1] rec
    by (simp add: get_pixel_photo get_pixel_stamp examples_dims)
  moreover have g: "decoded grid" "decoded (grid\<lparr>pixels := [BLACK, BLACK, BLACK, BLACK]\<rparr>)"
    "same_shape (grid\<lparr>pixels := [BLACK, BLACK, BLACK, BLACK]\<rparr>) grid"
    by (simp_all add: decoded_def same_shape_def grid_def)
  have blk: "get_pixel (grid\<lparr>pixels := [BLACK, BLACK, BLACK, BLACK]\<rparr>) (of_nat x) (of_nat y)
               = Inr BLACK" if "x < 2" "y < 2" for x y
  proof -
    from that have "x = 0 \<or> x = 1" "y = 0 \<or> y = 1" by auto
    then show ?thesis by (auto simp: get_pixel_def vec_at_def grid_def)
  qed
  have "unblend grid (grid\<lparr>pixels := [BLACK, BLACK, BLACK, BLACK]\<rparr>)
         (Num (1 / 2)) 255 255 255 = Inr grid"
    using black_mask_keeps_pixel [OF g, of "Num (1 / 2)" 255 255 255, THEN conjunct2] blk
    by (simp add: grid_def)
  ultimately show ?thesis
    using rec examples_decoded g(1) get_pixel_stamp(4) by blast
qed

text \<open>
  C4. A composite pixel (200,200,200) under a mask pixel that is not black, with
  \<^verbatim>\<open>alpha\<close> 0.5 and the overlay (255,255,255): \<^verbatim>\<open>Eq\<close> gives 145 in each channel, the pass
  returns, and the recovered pixel at that coordinate is (145,145,145).
\<close>

theorem scenario_half_white:
  assumes "decoded img" "decoded msk" "same_shape msk img"
    and "x < nat (width img)" "y < nat (height img)"
    and "get_pixel img (of_nat x) (of_nat y) = Inr \<lparr>r = 200, g = 200, b = 200\<rparr>"
    and "get_pixel msk (of_nat x) (of_nat y) = Inr m" "m \<noteq> BLACK"
  shows "Eq 200 (Num (1 / 2)) 255 = Num 145
       \<and> (\<exists>rec. unblend img msk (Num (1 / 2)) 255 255 255 = Inr rec
             \<and> get_pixel rec (of_nat x) (of_nat y) = Inr \<lparr>r = 145, g = 145, b = 145\<rparr>)"
proof
  show "Eq 200 (Num (1 / 2)) 255 = Num 145"
    by (simp add: Eq_def Eq_value_half clamp_def)
next
  have "finite_nonzero (Num (1 / 2))" by (simp add: finite_nonzero_def)
  from unblend_returns [OF assms(1,2,3) this]
  obtain rec where rec: "unblend img msk (Num (1 / 2)) 255 255 255 = Inr rec" by blast
  have "restore \<lparr>r = 200, g = 200, b = 200\<rparr> (Num (1 / 2)) 255 255 255
          = Inr \<lparr>r = 145, g = 145, b = 145\<rparr>"
    by (simp add: restore_eq Eq_value_half u8_of_int_def clamped_u8_def)
  then have "get_pixel rec (of_nat x) (of_nat y) = Inr \<lparr>r = 145, g = 145, b = 145\<rparr>"
    using unblend_at [OF assms(1,2,3) rec assms(4,5)] assms(6,7,8)
    by (auto simp: recovered_pixel_def)
  with rec show "\<exists>rec. unblend img msk (Num (1 / 2)) 255 255 255 = Inr rec
             \<and> get_pixel rec (of_nat x) (of_nat y) = Inr \<lparr>r = 145, g = 145, b = 145\<rparr>"
    by blast
qed

text \<open>
  The pixel (0,0) of the example composite is (200,200,200) and its mask pixel is white.
\<close>

theorem scenario_half_white_witness:
  "decoded photo \<and> decoded stamp \<and> same_shape stamp photo
   \<and> get_pixel photo 0 0 = Inr \<lparr>r = 200, g = 200, b = 200\<rparr>
   \<and> get_pixel stamp 0 0 = Inr WHITE \<and> WHITE \<noteq> BLACK
   \<and> (\<exists>rec. unblend photo stamp (Num (1 / 2)) 255 255 255 = Inr rec
         \<and> get_pixel rec 0 0 = Inr \<lparr>r = 145, g = 145, b = 145\<rparr>)"
  using scenario_half_white [OF examples_decoded, of 0 0 WHITE]
  by (simp add: get_pixel_photo get_pixel_stamp not_black examples_dims examples_decoded)

text \<open>
  C8. For a decoded composite and a decoded mask of the same dimensions: visiting the
  coordinates of the grid in any order (each at least once) gives the result of the two
  nested loops, undefined behaviour included; and each pixel of a returned buffer is the
  value of the one function \<open>recovered_pixel\<close> at the mask pixel and the composite pixel of
  the same coordinate, \<^verbatim>\<open>alpha\<close> and the overlay colour. The model is a function of its
  inputs, so equal inputs give equal outputs.
\<close>

theorem unblend_pixelwise:
  assumes "decoded img" "decoded msk" "same_shape msk img"
  shows "(\<forall>cs. set cs = set (coords img)
            \<longrightarrow> unblend_in_order cs img msk alpha vr vg vb = unblend img msk alpha vr vg vb)
       \<and> (\<forall>rec x y. unblend img msk alpha vr vg vb = Inr rec
            \<and> x < nat (width img) \<and> y < nat (height img)
            \<longrightarrow> (\<exists>m f. get_pixel msk (of_nat x) (of_nat y) = Inr m
                      \<and> get_pixel img (of_nat x) (of_nat y) = Inr f
                      \<and> get_pixel rec (of_nat x) (of_nat y)
                          = recovered_pixel m f alpha vr vg vb))"
proof (intro conjI allI impI)
  fix cs assume "set cs = set (coords img)"
  then show "unblend_in_order cs img msk alpha vr vg vb = unblend img msk alpha vr vg vb"
    by (simp add: unblend_in_order_closed [OF assms] unblend_closed [OF assms])
next
  fix rec x y
  assume "unblend img msk alpha vr vg vb = Inr rec
            \<and> x < nat (width img) \<and> y < nat (height img)"
  then show "\<exists>m f. get_pixel msk (of_nat x) (of_nat y) = Inr m
                      \<and> get_pixel img (of_nat x) (of_nat y) = Inr f
                      \<and> get_pixel rec (of_nat x) (of_nat y)
                          = recovered_pixel m f alpha vr vg vb"
    using unblend_at [OF assms, of alpha vr vg vb rec x y] by blast
qed


text \<open>
  The example pass with the four coordinates in reverse order, and its pixel (1,0).
\<close>

theorem unblend_pixelwise_witness:
  "decoded photo \<and> decoded stamp \<and> same_shape stamp photo
   \<and> set [(1, 1), (0, 1), (1, 0), (0, 0)] = set (coords photo)
   \<and> unblend_in_order [(1, 1), (0, 1), (1, 0), (0, 0)] photo stamp (Num (1 / 2)) 255 255 255
       = unblend photo stamp (Num (1 / 2)) 255 255 255
   \<and> (\<exists>rec. unblend photo stamp (Num (1 / 2)) 255 255 255 = Inr rec
         \<and> get_pixel rec 1 0
             = recovered_pixel \<lparr>r = 0, g = 0, b = 1\<rparr> \<lparr>r = 100, g = 150, b = 250\<rparr>
                 (Num (1 / 2)) 255 255 255)"
proof -
  have fin: "finite_nonzero (Num (1 / 2))" by (simp add: finite_nonzero_def)
  from unblend_returns [OF examples_decoded this]
  obtain rec where rec: "unblend photo stamp (Num (1 / 2)) 255 255 255 = Inr rec" by blast
  note th = unblend_pixelwise [OF examples_decoded, of "Num (1 / 2)" 255 255 255]
  have cs: "set [(1, 1), (0, 1), (1, 0), (0, 0)] = set (coords photo)"
    by (auto simp: coords_def examples_dims upt_rec numeral_2_eq_2)
  have "get_pixel rec 1 0
          = recovered_pixel \<lparr>r = 0, g = 0, b = 1\<rparr> \<lparr>r = 100, g = 150, b = 250\<rparr>
              (Num (1 / 2)) 255 255 255"
    using th [THEN conjunct2, rule_format, of rec 1 0] rec
    by (simp add: get_pixel_photo get_pixel_stamp examples_dims)
  moreover have "unblend_in_order [(1, 1), (0, 1), (1, 0), (0, 0)] photo stamp
                   (Num (1 / 2)) 255 255 255 = unblend photo stamp (Num (1 / 2)) 255 255 255"
    using th [THEN conjunct1, rule_format, OF cs] .
  ultimately show ?thesis using rec cs examples_decoded by blast
qed

text \<open>
  C9. For a decoded composite and a decoded mask of the same dimensions: the pass for the
  overlay channels \<open>vr, vg, vb\<close> is the pass for \<open>vr mod 256, vg mod 256, vb mod 256\<close>; and
  at every coordinate whose mask pixel is not black, each channel of a returned buffer is
  the clamped value of the formula \<open>(final - overlay * (1 - alpha)) / alpha\<close> in which the
  overlay is the number \<open>v mod 256\<close>: the \<^verbatim>\<open>int\<close> is narrowed to 8 bits before it is used.
\<close>

theorem overlay_narrowed_mod_256:
  assumes "decoded img" "decoded msk" "same_shape msk img"
  shows "unblend img msk alpha vr vg vb
           = unblend img msk alpha (vr mod 256) (vg mod 256) (vb mod 256)
       \<and> (\<forall>rec x y m f. unblend img msk alpha vr vg vb = Inr rec
            \<and> x < nat (width img) \<and> y < nat (height img)
            \<and> get_pixel msk (of_nat x) (of_nat y) = Inr m \<and> m \<noteq> BLACK
            \<and> get_pixel img (of_nat x) (of_nat y) = Inr f
            \<longrightarrow> get_pixel rec (of_nat x) (of_nat y)
                  = Inr \<lparr>r = clamped_u8 (fdiv (fsub (float_of_u8 (r f))
                                (fmul (Num (of_int (vr mod 256))) (fsub (Num 1) alpha))) alpha),
                         g = clamped_u8 (fdiv (fsub (float_of_u8 (g f))
                                (fmul (Num (of_int (vg mod 256))) (fsub (Num 1) alpha))) alpha),
                         b = clamped_u8 (fdiv (fsub (float_of_u8 (b f))
                                (fmul (Num (of_int (vb mod 256))) (fsub (Num 1) alpha))) alpha)\<rparr>)"
proof (intro conjI allI impI)
  have rs: "restore p alpha vr vg vb = restore p alpha (vr mod 256) (vg mod 256) (vb mod 256)"
    for p unfolding restore_def u8_of_int_mod ..
  have "body img msk alpha vr vg vb
          = body img msk alpha (vr mod 256) (vg mod 256) (vb mod 256)"
    unfolding body_def rs [symmetric] ..
  then have "step img msk alpha vr vg vb
          = step img msk alpha (vr mod 256) (vg mod 256) (vb mod 256)"
    unfolding step_def by simp
  then show "unblend img msk alpha vr vg vb
          = unblend img msk alpha (vr mod 256) (vg mod 256) (vb mod 256)"
    unfolding unblend_def by simp
next
  fix rec x y m f
  assume a: "unblend img msk alpha vr vg vb = Inr rec
            \<and> x < nat (width img) \<and> y < nat (height img)
            \<and> get_pixel msk (of_nat x) (of_nat y) = Inr m \<and> m \<noteq> BLACK
            \<and> get_pixel img (of_nat x) (of_nat y) = Inr f"
  then have "get_pixel rec (of_nat x) (of_nat y)
           = Inr \<lparr>r = clamped_u8 (Eq_value (r f) alpha (u8_of_int vr)),
                  g = clamped_u8 (Eq_value (g f) alpha (u8_of_int vg)),
                  b = clamped_u8 (Eq_value (b f) alpha (u8_of_int vb))\<rparr>"
    using unblend_masked_at [OF assms, of alpha vr vg vb rec x y m f] by blast
  then show "get_pixel rec (of_nat x) (of_nat y)
                  = Inr \<lparr>r = clamped_u8 (fdiv (fsub (float_of_u8 (r f))
                                (fmul (Num (of_int (vr mod 256))) (fsub (Num 1) alpha))) alpha),
                         g = clamped_u8 (fdiv (fsub (float_of_u8 (g f))
                                (fmul (Num (of_int (vg mod 256))) (fsub (Num 1) alpha))) alpha),
                         b = clamped_u8 (fdiv (fsub (float_of_u8 (b f))
                                (fmul (Num (of_int (vb mod 256))) (fsub (Num 1) alpha))) alpha)\<rparr>"
    unfolding Eq_value_overlay .
qed

text \<open>
  The example pass with \<^verbatim>\<open>alpha\<close> 0.5 and the overlay (511, 256, -1), which is narrowed to
  (255, 0, 255): the pixel (100,150,250) becomes (0,255,245). An overlay green of 256 used
  as it stands would give 44 in place of 255.
\<close>

theorem overlay_narrowed_mod_256_witness:
  "decoded photo \<and> decoded stamp \<and> same_shape stamp photo
   \<and> unblend photo stamp (Num (1 / 2)) 511 256 (- 1)
       = unblend photo stamp (Num (1 / 2)) 255 0 255
   \<and> (\<exists>rec. unblend photo stamp (Num (1 / 2)) 511 256 (- 1) = Inr rec
         \<and> get_pixel rec 1 0 = Inr \<lparr>r = 0, g = 255, b = 245\<rparr>)"
proof -
  note th = overlay_narrowed_mod_256 [OF examples_decoded, of "Num (1 / 2)" 511 256 "- 1"]
  have fin: "finite_nonzero (Num (1 / 2))" by (simp add: finite_nonzero_def)
  from unblend_returns [OF examples_decoded fin]
  obtain rec where rec: "unblend photo stamp (Num (1 / 2)) 511 256 (- 1) = Inr rec" by blast
  have v: "fdiv (fsub (float_of_u8 c) (fmul (Num 255) (fsub (Num 1) (Num (1 / 2))))) (Num (1 / 2))
             = Num (of_int (2 * uint c - 255))"
    "fdiv (fsub (float_of_u8 c) (fmul (Num 0) (fsub (Num 1) (Num (1 / 2))))) (Num (1 / 2))
             = Num (of_int (2 * uint c))" for c
    using Eq_value_half [of c 255] Eq_value_half [of c 0]
    by (simp_all add: Eq_value_def float_of_u8_def)
  have "get_pixel rec 1 0 = Inr \<lparr>r = 0, g = 255, b = 245\<rparr>"
    using th [THEN conjunct2, rule_format, of rec 1 0 "\<lparr>r = 0, g = 0, b = 1\<rparr>"
        "\<lparr>r = 100, g = 150, b = 250\<rparr>"] rec
    by (simp add: get_pixel_photo get_pixel_stamp not_black examples_dims v clamped_u8_def)
  moreover have "unblend photo stamp (Num (1 / 2)) 511 256 (- 1)
       = unblend photo stamp (Num (1 / 2)) 255 0 255"
    using th [THEN conjunct1] by simp
  ultimately show ?thesis using rec examples_decoded by blast
qed







text \<open>
  C5, as the claim states it: with \<^verbatim>\<open>alpha\<close> 0 the pass over the example composite and
  mask (overlay black) raises nothing. It returns a buffer whose three masked pixels are
  (255,255,255), narrowed from the infinity that the division by zero gives.
\<close>

theorem zero_alpha_counterexample:
  "unblend photo stamp (Num 0) 0 0 0
     = Inr (photo\<lparr>pixels := [\<lparr>r = 255, g = 255, b = 255\<rparr>, \<lparr>r = 255, g = 255, b = 255\<rparr>,
                             \<lparr>r = 255, g = 255, b = 255\<rparr>, \<lparr>r = 7, g = 8, b = 9\<rparr>]\<rparr>)"
  unfolding unblend_zero_alpha [OF examples_decoded, of "Num 0" 0 0 0, simplified]
  by (simp add: examples_pixels upt_4 ex_less_4 not_black u8_of_int_def)

text \<open>
  C5, amended. For a decoded composite and mask of the same dimensions and \<^verbatim>\<open>alpha\<close>
  zero of either sign, the pass raises no error of its own. Where no channel of a masked
  pixel equals its overlay channel (narrowed to 8 bits) it returns the buffer in which
  every channel of a masked pixel is saturated: for \<open>+0\<close>, 255 where the composite channel
  is above the overlay channel and 0 where it is below; for \<open>-0\<close> the other way round.
  Where a channel of a masked pixel equals its overlay channel the value is a NaN and its
  conversion to 8 bits is undefined behaviour.
\<close>

theorem zero_alpha_saturates:
  assumes "decoded img" "decoded msk" "same_shape msk img"
    and "alpha = Num 0 \<or> alpha = MinusZero"
  shows "unblend img msk alpha vr vg vb =
           (if \<exists>j < length (pixels img). pixels msk ! j \<noteq> BLACK
                 \<and> (r (pixels img ! j) = u8_of_int vr \<or> g (pixels img ! j) = u8_of_int vg
                      \<or> b (pixels img ! j) = u8_of_int vb)
            then Inl UnrepresentableConversion
            else Inr (img\<lparr>pixels :=
                   map (\<lambda>j. if pixels msk ! j = BLACK then pixels img ! j
                            else \<lparr>r = (if (u8_of_int vr < r (pixels img ! j)) = (alpha = Num 0)
                                       then 255 else 0),
                                  g = (if (u8_of_int vg < g (pixels img ! j)) = (alpha = Num 0)
                                       then 255 else 0),
                                  b = (if (u8_of_int vb < b (pixels img ! j)) = (alpha = Num 0)
                                       then 255 else 0)\<rparr>)
                       [0 ..< length (pixels img)]\<rparr>))"
  by (rule unblend_zero_alpha [OF assms])

text \<open>
  The example composite and mask: with \<open>-0\<close> and a black overlay the masked pixels
  become black; with \<open>+0\<close> and the overlay (300,129,0), narrowed to (44,129,0), the third
  pixel (10,128,255) becomes (0,0,255); with the overlay (200,0,0) the red channel of the
  first pixel equals the overlay and the conversion is undefined.
\<close>

theorem zero_alpha_saturates_witness:
  "decoded photo \<and> decoded stamp \<and> same_shape stamp photo
   \<and> unblend photo stamp MinusZero 0 0 0
       = Inr (photo\<lparr>pixels := [\<lparr>r = 0, g = 0, b = 0\<rparr>, \<lparr>r = 0, g = 0, b = 0\<rparr>,
                               \<lparr>r = 0, g = 0, b = 0\<rparr>, \<lparr>r = 7, g = 8, b = 9\<rparr>]\<rparr>)
   \<and> unblend photo stamp (Num 0) 300 129 0
       = Inr (photo\<lparr>pixels := [\<lparr>r = 255, g = 255, b = 255\<rparr>, \<lparr>r = 255, g = 255, b = 255\<rparr>,
                               \<lparr>r = 0, g = 0, b = 255\<rparr>, \<lparr>r = 7, g = 8, b = 9\<rparr>]\<rparr>)
   \<and> unblend photo stamp (Num 0) 200 0 0 = Inl UnrepresentableConversion"
proof -
  have "unblend photo stamp MinusZero 0 0 0
       = Inr (photo\<lparr>pixels := [\<lparr>r = 0, g = 0, b = 0\<rparr>, \<lparr>r = 0, g = 0, b = 0\<rparr>,
                               \<lparr>r = 0, g = 0, b = 0\<rparr>, \<lparr>r = 7, g = 8, b = 9\<rparr>]\<rparr>)"
    unfolding zero_alpha_saturates [OF examples_decoded, of MinusZero 0 0 0, simplified]
    by (simp add: examples_pixels upt_4 ex_less_4 not_black u8_of_int_def)
  moreover have "unblend photo stamp (Num 0) 300 129 0
       = Inr (photo\<lparr>pixels := [\<lparr>r = 255, g = 255, b = 255\<rparr>, \<lparr>r = 255, g = 255, b = 255\<rparr>,
                               \<lparr>r = 0, g = 0, b = 255\<rparr>, \<lparr>r = 7, g = 8, b = 9\<rparr>]\<rparr>)"
    unfolding zero_alpha_saturates [OF examples_decoded, of "Num 0" 300 129 0, simplified]
    by (simp add: examples_pixels upt_4 ex_less_4 not_black u8_of_int_def)
  moreover have "unblend photo stamp (Num 0) 200 0 0 = Inl UnrepresentableConversion"
    unfolding zero_alpha_saturates [OF examples_decoded, of "Num 0" 200 0 0, simplified]
    by (simp add: examples_pixels upt_4 ex_less_4 not_black u8_of_int_def)
  ultimately show ?thesis using examples_decoded by simp
qed

text \<open>
  C3, as the claim states it, fails. The one-pixel original (2,2,2), blended with a black
  overlay at \<^verbatim>\<open>alpha\<close> 1/4 under an all-white mask: the exact blend 1/2 is rounded to 0
  (towards zero, or to nearest even) or to 1 (ties away from zero), and the pass recovers
  (0,0,0) or (4,4,4). Both are 2 away from the original.
\<close>

theorem round_trip_counterexample:
  "pixels dot = [\<lparr>r = 2, g = 2, b = 2\<rparr>]
   \<and> unblend (composite Truncate dot (1 / 4) BLACK) dot_mask (Num (1 / 4)) 0 0 0
       = Inr (dot\<lparr>pixels := [\<lparr>r = 0, g = 0, b = 0\<rparr>]\<rparr>)
   \<and> unblend (composite NearestEven dot (1 / 4) BLACK) dot_mask (Num (1 / 4)) 0 0 0
       = Inr (dot\<lparr>pixels := [\<lparr>r = 0, g = 0, b = 0\<rparr>]\<rparr>)
   \<and> unblend (composite NearestAway dot (1 / 4) BLACK) dot_mask (Num (1 / 4)) 0 0 0
       = Inr (dot\<lparr>pixels := [\<lparr>r = 4, g = 4, b = 4\<rparr>]\<rparr>)
   \<and> \<not> pixel_near 1 \<lparr>r = 0, g = 0, b = 0\<rparr> \<lparr>r = 2, g = 2, b = 2\<rparr>
   \<and> \<not> pixel_near 1 \<lparr>r = 4, g = 4, b = 4\<rparr> \<lparr>r = 2, g = 2, b = 2\<rparr>"
proof -
  have sh: "decoded (dot\<lparr>pixels := [p]\<rparr>)" "same_shape dot_mask (dot\<lparr>pixels := [p]\<rparr>)" for p
    by (simp_all add: decoded_def same_shape_def dot_def dot_mask_def)
  have pf: "pixels (dot\<lparr>pixels := [p]\<rparr>) = [p]" for p by simp
  have pm: "pixels dot_mask = [WHITE]" by (simp add: dot_mask_def)
  have nb: "WHITE \<noteq> BLACK" by (simp add: WHITE_def BLACK_def)
  have run: "unblend (dot\<lparr>pixels := [\<lparr>r = c, g = c, b = c\<rparr>]\<rparr>) dot_mask (Num (1 / 4)) 0 0 0
          = Inr (dot\<lparr>pixels := [\<lparr>r = clamped_u8 (Num (of_int (4 * uint c))),
                                  g = clamped_u8 (Num (of_int (4 * uint c))),
                                  b = clamped_u8 (Num (of_int (4 * uint c)))\<rparr>]\<rparr>)" for c
    using unblend_dot [OF sh(1) dot_decoded(2) sh(2) pf pm nb restore_quarter, of c] by simp
  have c0: "clamped_u8 (Num 0) = 0" and c4: "clamped_u8 (Num 4) = 4"
    by (simp_all add: clamped_u8_def)
  show ?thesis
    by (simp add: dot_decoded(5) composite_dot round_with_half run c0 c4 pixel_near_def near_def)
qed

text \<open>
  C3, amended. For a decoded original and a decoded mask of the same dimensions without a
  black pixel, every overlay colour, each of the three roundings of the forward blend, and
  every \<^verbatim>\<open>alpha\<close> in (0, 1]: the pass over the blended buffer returns a buffer of the
  dimensions of the original, and every channel it recovers is within
  \<open>\<lceil>(e + 2 ^ - 12) / alpha\<rceil>\<close> of the original, where \<open>e\<close> is the largest error of the rounding
  of the blend: 1/2 to nearest, 1 towards zero. So the channels are within 1 of the
  original for a blend rounded to nearest and every \<^verbatim>\<open>alpha\<close> from \<open>1 / 2 + 2 ^ - 12\<close> to 1.
  For \<^verbatim>\<open>alpha\<close> a multiple of \<open>1 / 2 ^ k\<close> with \<open>k \<le> 7\<close> the channels are within
  \<open>\<lceil>e' / alpha\<rceil>\<close>, where \<open>e'\<close> is the largest error of the rounding on the multiples of
  \<open>1 / 2 ^ k\<close>: \<open>1 - 1 / 2 ^ k\<close> towards zero, 1/2 to nearest, 0 for \<open>k = 0\<close>. That is the
  original itself for \<^verbatim>\<open>alpha\<close> 1, and within 1 of it for \<^verbatim>\<open>alpha\<close> 1/2, 3/4 and 7/8 in
  each rounding.
\<close>

theorem round_trip_tolerance:
  assumes "decoded original" "decoded msk" "same_shape msk original"
    and "\<forall>p\<in>set (pixels msk). p \<noteq> BLACK" and "0 < alpha" "alpha \<le> 1"
  shows "\<exists>rec. unblend (composite m original alpha overlay) msk (Num alpha)
                 (uint (r overlay)) (uint (g overlay)) (uint (b overlay)) = Inr rec
             \<and> same_shape rec original
             \<and> (\<forall>j < length (pixels original).
                   pixel_near (tolerance m alpha) (pixels rec ! j) (pixels original ! j))
             \<and> (m \<noteq> Truncate \<and> 2049 / 4096 \<le> alpha \<longrightarrow>
                  (\<forall>j < length (pixels original).
                     pixel_near 1 (pixels rec ! j) (pixels original ! j)))
             \<and> (\<forall>k n. k \<le> 7 \<and> alpha = of_int n / 2 ^ k \<longrightarrow>
                  (\<forall>j < length (pixels original).
                     pixel_near (grid_tolerance m k alpha) (pixels rec ! j) (pixels original ! j)))"
proof -
  let ?F = "composite m original alpha overlay"
  note d = composite_shape(1) [OF assms(1), of m alpha overlay]
    assms(2) composite_shape(2) [OF assms(3), of m alpha overlay]
  have "alpha \<le> 2 ^ 128 - 2 ^ 104" using assms(6) by (rule order_trans) simp
  then have fin: "finite_nonzero (Num alpha)"
    using assms(5) by (simp add: finite_nonzero_def)
  from unblend_returns [OF d fin]
  obtain rec where rec: "unblend ?F msk (Num alpha)
      (uint (r overlay)) (uint (g overlay)) (uint (b overlay)) = Inr rec" by blast
  note res = unblend_result [OF d rec]
  have len: "length (pixels ?F) = length (pixels original)"
    "length (pixels msk) = length (pixels original)"
    using assms(3) by (simp_all add: composite_def same_shape_def)
  have px: "pixel_near (tolerance m alpha) (pixels rec ! j) (pixels original ! j)
      \<and> (\<forall>k n. k \<le> 7 \<and> alpha = of_int n / 2 ^ k \<longrightarrow>
            pixel_near (grid_tolerance m k alpha) (pixels rec ! j) (pixels original ! j))"
    if j: "j < length (pixels original)" for j
  proof -
    have "pixels msk ! j \<in> set (pixels msk)" using j len(2) by simp
    with assms(4) have nb: "pixels msk ! j \<noteq> BLACK" by blast
    have Fj: "pixels ?F ! j = composite_pixel m (pixels original ! j) alpha overlay"
      using j by (simp add: composite_def)
    from res(3) [of j] j len(1) nb
    have "restore (composite_pixel m (pixels original ! j) alpha overlay) (Num alpha)
            (uint (r overlay)) (uint (g overlay)) (uint (b overlay)) = Inr (pixels rec ! j)"
      by (simp add: recovered_pixel_def Fj)
    with restore_round_trip_general [OF assms(5,6), of m "pixels original ! j" overlay]
    show ?thesis by simp
  qed
  have one: "pixel_near 1 (pixels rec ! j) (pixels original ! j)"
    if "m \<noteq> Truncate" "2049 / 4096 \<le> alpha" "j < length (pixels original)" for j
    using px [OF that(3)] tolerance_nearest [OF that(1,2) assms(6)] by simp
  from rec composite_shape(3) [OF res(1)] px one show ?thesis by blast
qed

text \<open>
  The one-pixel original blended with white at \<^verbatim>\<open>alpha\<close> 3/4, the blend rounded towards
  zero: the general tolerance is 2, the tolerance for the multiples of 1/4 is 1.
\<close>

theorem round_trip_tolerance_witness:
  "decoded dot \<and> decoded dot_mask \<and> same_shape dot_mask dot
   \<and> BLACK \<notin> set (pixels dot_mask) \<and> (0::rat) < 3 / 4 \<and> (3 / 4 :: rat) \<le> 1
   \<and> tolerance Truncate (3 / 4) = 2 \<and> grid_tolerance Truncate 2 (3 / 4) = 1
   \<and> (\<exists>rec. unblend (composite Truncate dot (3 / 4) WHITE) dot_mask (Num (3 / 4)) 255 255 255
                = Inr rec
         \<and> pixel_near 1 (pixels rec ! 0) \<lparr>r = 2, g = 2, b = 2\<rparr>)"
proof -
  have a: "(0::rat) < 3 / 4" "(3 / 4 :: rat) \<le> 1" by simp_all
  have t: "tolerance Truncate (3 / 4) = 2"
    by (simp add: tolerance_def rounding_error_def ceiling_eq_iff)
  have gt: "grid_tolerance Truncate 2 (3 / 4) = 1"
    by (simp add: grid_tolerance_def grid_error_def)
  have k: "(2::nat) \<le> 7 \<and> (3 / 4 :: rat) = of_int 3 / 2 ^ 2" by simp
  from round_trip_tolerance [OF dot_decoded(1-4) a, of Truncate WHITE]
  obtain rec where rec: "unblend (composite Truncate dot (3 / 4) WHITE) dot_mask (Num (3 / 4))
        (uint (r WHITE)) (uint (g WHITE)) (uint (b WHITE)) = Inr rec"
    and dy: "\<forall>k n. k \<le> 7 \<and> (3 / 4 :: rat) = of_int n / 2 ^ k \<longrightarrow>
                  (\<forall>j < length (pixels dot).
                     pixel_near (grid_tolerance Truncate k (3 / 4)) (pixels rec ! j) (pixels dot ! j))"
    by blast
  from dy k have "\<forall>j < length (pixels dot).
      pixel_near (grid_tolerance Truncate 2 (3 / 4)) (pixels rec ! j) (pixels dot ! j)"
    by blast
  then have "pixel_near 1 (pixels rec ! 0) \<lparr>r = 2, g = 2, b = 2\<rparr>"
    unfolding gt by (simp add: dot_decoded(5))
  moreover have "unblend (composite Truncate dot (3 / 4) WHITE) dot_mask (Num (3 / 4)) 255 255 255
      = Inr rec"
    using rec by (simp add: WHITE_def)
  ultimately have "\<exists>rec. unblend (composite Truncate dot (3 / 4) WHITE) dot_mask (Num (3 / 4)) 255 255 255
                = Inr rec
         \<and> pixel_near 1 (pixels rec ! 0) \<lparr>r = 2, g = 2, b = 2\<rparr>" by blast
  then show ?thesis using dot_decoded a t gt by auto
qed

end
